theory Spec2Isabelle
  imports Main "HOL-Library.Word"
begin

unbundle bit_operations_syntax

section \<open>Data model\<close>

text \<open>
  Byte strings (\<^verbatim>\<open>std::string\<close>, \<^verbatim>\<open>Slice\<close>) are lists of characters; the 64-bit
  unsigned values of the code (\<^verbatim>\<open>uint64_t\<close>, \<^verbatim>\<open>size_t\<close>) are 64-bit words, whose
  arithmetic wraps around as the code's does.
\<close>

type_synonym bytes = string
type_synonym u64 = "64 word"
type_synonym u32 = "32 word"

text \<open>
  A \<^verbatim>\<open>Status\<close> is ok or an error; the number tells the errors of the file sink
  apart, \<open>Corruption\<close> is the iterator's.
\<close>

datatype Status = OK | IOError nat | Corruption

text \<open>
  What stops a run instead of returning: a failed \<^verbatim>\<open>assert\<close>, or the dereference of
  the empty \<^verbatim>\<open>compression_dict_\<close> pointer.
\<close>

datatype Abort = AssertionFailed | NullDereference

datatype BuilderState = kBuffered | kUnbuffered

record BlobRecord =
  key :: bytes
  val :: bytes

record BlobHandle =
  h_offset :: u64
  h_size :: u64

record BlockHandle =
  b_offset :: u64
  b_size :: u64

record BlobFileFooter =
  meta_index_handle :: BlockHandle
  uncompression_dict_handle :: BlockHandle

record CompressionDict =
  raw_dict :: bytes
  dict_type :: nat
  dict_level :: int

text \<open>
  The options a builder reads. \<^verbatim>\<open>DictionaryEnabled()\<close> is declared in the builder's
  header, which is not part of the sources at hand: its value is a field here, fixed
  when the builder is made. The two byte budgets are held as the 64-bit values they
  have in the comparisons and the subtraction of the builder.
\<close>

record TitanCFOptions =
  blob_file_compression :: nat
  level :: int
  max_dict_bytes :: u64
  zstd_max_train_bytes :: u64
  comparator :: "bytes \<Rightarrow> bytes \<Rightarrow> int"
  DictionaryEnabled :: bool

section \<open>The file sink\<close>

text \<open>
  \<^verbatim>\<open>WritableFileWriter\<close> is an external collaborator. Its model holds the bytes
  appended so far and the outcomes of the calls to come (\<open>pending\<close>, ok once the list is
  used up): an \<^verbatim>\<open>Append\<close> that fails adds nothing to the file. Each call of
  \<^verbatim>\<open>Append\<close> or \<^verbatim>\<open>Flush\<close> uses up one outcome, so the length of
  \<open>pending\<close> tells how many calls were made.
\<close>

record WritableFileWriter =
  contents :: bytes
  pending :: "Status list"

definition Append :: "WritableFileWriter \<Rightarrow> bytes \<Rightarrow> Status \<times> WritableFileWriter" where
  "Append f data =
     (case pending f of
        [] \<Rightarrow> (OK, f\<lparr>contents := contents f @ data\<rparr>)
      | s # ss \<Rightarrow>
          (s, f\<lparr>contents := (if s = OK then contents f @ data else contents f),
                pending := ss\<rparr>))"

definition Flush :: "WritableFileWriter \<Rightarrow> Status \<times> WritableFileWriter" where
  "Flush f = (case pending f of [] \<Rightarrow> (OK, f) | s # ss \<Rightarrow> (s, f\<lparr>pending := ss\<rparr>))"

definition GetFileSize :: "WritableFileWriter \<Rightarrow> u64" where
  "GetFileSize f = of_nat (length (contents f))"

section \<open>External primitives and the record encoder\<close>

text \<open>
  The compressor, the checksum, the dictionary trainer and the meta-index builder are
  external; the encodings of the file header, the footer and a record are code of the
  repository that is not among the sources at hand. A \<open>Codec\<close> collects them as
  parameters; the second half of the fields are the decoders the iterator uses.
\<close>

record Codec =
  EncodeHeader :: "u32 \<Rightarrow> bytes"
  EncodeFooter :: "BlobFileFooter \<Rightarrow> bytes"
  EncodeTo :: "BlobRecord \<Rightarrow> bytes"
  Compress :: "CompressionDict option \<Rightarrow> bytes \<Rightarrow> char \<times> bytes"
  RecordHeader :: "char \<Rightarrow> bytes \<Rightarrow> bytes"
  ZSTD_TrainDictionary :: "bytes \<Rightarrow> u64 list \<Rightarrow> u64 \<Rightarrow> bytes"
  crc32c_Value :: "bytes \<Rightarrow> u32"
  crc32c_Extend :: "u32 \<Rightarrow> bytes \<Rightarrow> u32"
  crc32c_Mask :: "u32 \<Rightarrow> u32"
  MetaIndexBlock :: "(bytes \<times> BlockHandle) list \<Rightarrow> bytes"
  kHeaderSize :: nat
  kFooterSize :: nat
  kRecordHeaderSize :: nat
  DecodeHeader :: "bytes \<Rightarrow> u32 option"
  DecodeFooter :: "bytes \<Rightarrow> BlobFileFooter option"
  DecodeRecordHeader :: "bytes \<Rightarrow> (char \<times> nat) option"
  VerifyChecksum :: "bytes \<Rightarrow> bytes \<Rightarrow> bool"
  Uncompress :: "bytes option \<Rightarrow> char \<Rightarrow> bytes \<Rightarrow> bytes option"
  DecodeFrom :: "bytes \<Rightarrow> BlobRecord option"

text \<open>
  Modelled from the spec: the record encoder (\<^verbatim>\<open>BlobEncoder\<close>), whose source is
  missing. It "turns one key/value record into a length-prefixed, optionally compressed,
  checksummed byte unit with its own header", "optionally compresses the body using the
  installed dictionary", "and exposes the resulting header bytes and body bytes plus
  the combined encoded size"; \<^verbatim>\<open>EncodeSlice\<close> "re-encodes a previously-serialized raw
  record". The state of the encoder is the header, the body and the dictionary
  installed.
\<close>

record BlobEncoder =
  GetHeader :: bytes
  GetRecord :: bytes
  enc_dict :: "CompressionDict option"

definition EncodeSlice :: "Codec \<Rightarrow> BlobEncoder \<Rightarrow> bytes \<Rightarrow> BlobEncoder" where
  "EncodeSlice c e s =
     (let (t, body) = Compress c (enc_dict e) s
      in e\<lparr>GetHeader := RecordHeader c t body, GetRecord := body\<rparr>)"

definition EncodeRecord :: "Codec \<Rightarrow> BlobEncoder \<Rightarrow> BlobRecord \<Rightarrow> BlobEncoder" where
  "EncodeRecord c e r = EncodeSlice c e (EncodeTo c r)"

definition SetCompressionDict :: "BlobEncoder \<Rightarrow> CompressionDict \<Rightarrow> BlobEncoder" where
  "SetCompressionDict e d = e\<lparr>enc_dict := Some d\<rparr>"

definition GetEncodedSize :: "BlobEncoder \<Rightarrow> u64" where
  "GetEncodedSize e = of_nat (length (GetHeader e) + length (GetRecord e))"

section \<open>The builder\<close>

record BlobFileBuilder =
  cf_options :: TitanCFOptions
  builder_state :: BuilderState
  file_writer :: WritableFileWriter
  encoder :: BlobEncoder
  status :: Status
  sample_records :: "bytes list"
  sample_str_len :: u64
  compression_dict :: "CompressionDict option"
  num_entries :: u64
  live_data_size :: u64
  smallest_key :: bytes
  largest_key :: bytes

definition ok :: "BlobFileBuilder \<Rightarrow> bool" where
  "ok b = (status b = OK)"

definition NumEntries :: "BlobFileBuilder \<Rightarrow> u64" where
  "NumEntries b = num_entries b"

text \<open>
  Modelled from the spec: the header's flags, whose declaration is missing. The header
  "carries a flag bit \<^verbatim>\<open>has_dictionary\<close>"; a fresh header has no flag set.
\<close>

definition kHasUncompressionDictionary :: u32 where
  "kHasUncompressionDictionary = 1"

text \<open>The constructor: it writes the file header.\<close>

definition header_flags :: "TitanCFOptions \<Rightarrow> u32" where
  "header_flags opts =
     (if DictionaryEnabled opts then 0 OR kHasUncompressionDictionary else 0)"

definition NewBlobFileBuilder ::
  "Codec \<Rightarrow> TitanCFOptions \<Rightarrow> WritableFileWriter \<Rightarrow> BlobFileBuilder" where
  "NewBlobFileBuilder c opts f =
     (let (s, f') = Append f (EncodeHeader c (header_flags opts))
      in \<lparr>cf_options = opts,
          builder_state = (if DictionaryEnabled opts then kBuffered else kUnbuffered),
          file_writer = f',
          encoder = \<lparr>GetHeader = [], GetRecord = [], enc_dict = None\<rparr>,
          status = s,
          sample_records = [],
          sample_str_len = 0,
          compression_dict = None,
          num_entries = 0,
          live_data_size = 0,
          smallest_key = [],
          largest_key = []\<rparr>)"

text \<open>
  \<^verbatim>\<open>WriteEncoderData\<close> writes both fields of the handle it is given and reads none,
  so the model returns the handle.
\<close>

definition WriteEncoderData :: "BlobFileBuilder \<Rightarrow> BlobFileBuilder \<times> BlobHandle" where
  "WriteEncoderData b =
     (let handle = \<lparr>h_offset = GetFileSize (file_writer b), h_size = GetEncodedSize (encoder b)\<rparr>;
          b1 = b\<lparr>live_data_size := live_data_size b + h_size handle\<rparr>;
          (s1, f1) = Append (file_writer b1) (GetHeader (encoder b1));
          b2 = b1\<lparr>status := s1, file_writer := f1\<rparr>
      in if ok b2 then
           (let (s2, f2) = Append (file_writer b2) (GetRecord (encoder b2))
            in (b2\<lparr>status := s2, file_writer := f2, num_entries := num_entries b2 + 1\<rparr>, handle))
         else (b2, handle))"

text \<open>The loop of \<^verbatim>\<open>FlushSampleRecords\<close>; the handle of each write is dropped.\<close>

fun replay :: "Codec \<Rightarrow> bytes list \<Rightarrow> BlobFileBuilder \<Rightarrow> BlobFileBuilder" where
  "replay c [] b = b"
| "replay c (record_str # rest) b =
     replay c rest (fst (WriteEncoderData (b\<lparr>encoder := EncodeSlice c (encoder b) record_str\<rparr>)))"

definition FlushSampleRecords :: "Codec \<Rightarrow> BlobFileBuilder \<Rightarrow> BlobFileBuilder" where
  "FlushSampleRecords c b =
     (replay c (sample_records b) b)\<lparr>sample_records := [], sample_str_len := 0\<rparr>"

text \<open>
  The length a sample contributes to the training corpus: the subtraction is the
  code's, on unsigned values of the width of \<^verbatim>\<open>size_t\<close>, taken to be 64 bits.
\<close>

definition copy_len :: "u64 \<Rightarrow> u64 \<Rightarrow> u64" where
  "copy_len train_bytes record_size =
     (if train_bytes > 0 then min (train_bytes - record_size) record_size else record_size)"

definition EnterUnbuffered :: "Codec \<Rightarrow> BlobFileBuilder \<Rightarrow> BlobFileBuilder" where
  "EnterUnbuffered c b =
     (let lens = map (\<lambda>record_str. copy_len (zstd_max_train_bytes (cf_options b))
                                         (of_nat (length record_str)))
                     (sample_records b);
          samples = concat (map (\<lambda>(record_str, n). take (unat n) record_str)
                                (zip (sample_records b) lens));
          dict = ZSTD_TrainDictionary c samples lens (max_dict_bytes (cf_options b));
          cd = \<lparr>raw_dict = dict, dict_type = blob_file_compression (cf_options b),
                dict_level = level (cf_options b)\<rparr>
      in FlushSampleRecords c
           (b\<lparr>compression_dict := Some cd,
              encoder := SetCompressionDict (encoder b) cd,
              builder_state := kUnbuffered\<rparr>))"

text \<open>
  \<^verbatim>\<open>Add\<close>: the handle is an out-parameter, so the model takes the caller's handle and
  returns it, written or not. The two \<^verbatim>\<open>assert\<close>s are the last branches.
\<close>

definition Add ::
  "Codec \<Rightarrow> BlobFileBuilder \<Rightarrow> BlobRecord \<Rightarrow> BlobHandle \<Rightarrow> Abort + BlobFileBuilder \<times> BlobHandle" where
  "Add c b record handle =
     (if \<not> ok b then Inr (b, handle)
      else if builder_state b = kBuffered then
        (let record_str = EncodeTo c record;
             b1 = b\<lparr>sample_records := sample_records b @ [record_str],
                    sample_str_len := sample_str_len b + of_nat (length record_str)\<rparr>
         in if zstd_max_train_bytes (cf_options b1) > 0 \<and>
               sample_str_len b1 \<ge> zstd_max_train_bytes (cf_options b1)
            then Inr (EnterUnbuffered c b1, handle)
            else Inr (b1, handle))
      else
        (let (b1, handle1) =
               (if builder_state b = kUnbuffered
                then WriteEncoderData (b\<lparr>encoder := EncodeRecord c (encoder b) record\<rparr>)
                else (b, handle));
             b2 = (if smallest_key b1 = [] then b1\<lparr>smallest_key := key record\<rparr> else b1)
         in if \<not> comparator (cf_options b2) (key record) (smallest_key b2) \<ge> 0
            then Inl AssertionFailed
            else if \<not> comparator (cf_options b2) (key record) (largest_key b2) \<ge> 0
            then Inl AssertionFailed
            else Inr (b2\<lparr>largest_key := key record\<rparr>, handle1)))"

text \<open>
  \<^verbatim>\<open>EncodeFixed32\<close> is little-endian; \<^verbatim>\<open>kNoCompression\<close> is the byte 0. The
  trailer of a raw block is the type byte and the masked checksum of block and type.
\<close>

definition EncodeFixed32 :: "u32 \<Rightarrow> bytes" where
  "EncodeFixed32 w = map (\<lambda>i. char_of (unat (drop_bit (8 * i) w))) [0, 1, 2, 3]"

definition kNoCompression :: char where
  "kNoCompression = char_of (0::nat)"

definition block_trailer :: "Codec \<Rightarrow> bytes \<Rightarrow> bytes" where
  "block_trailer c block =
     (let crc = crc32c_Value c block;
          crc = crc32c_Extend c crc [kNoCompression]
      in kNoCompression # EncodeFixed32 (crc32c_Mask c crc))"

definition WriteRawBlock ::
  "Codec \<Rightarrow> BlobFileBuilder \<Rightarrow> bytes \<Rightarrow> BlobFileBuilder \<times> BlockHandle" where
  "WriteRawBlock c b block =
     (let handle = \<lparr>b_offset = GetFileSize (file_writer b), b_size = of_nat (length block)\<rparr>;
          (s1, f1) = Append (file_writer b) block;
          b1 = b\<lparr>status := s1, file_writer := f1\<rparr>
      in if ok b1 then
           (let (s2, f2) = Append (file_writer b1) (block_trailer c block)
            in (b1\<lparr>status := s2, file_writer := f2\<rparr>, handle))
         else (b1, handle))"

definition kCompressionDictBlock :: bytes where
  "kCompressionDictBlock = ''rocksdb.compression_dict''"

definition WriteCompressionDictBlock ::
  "Codec \<Rightarrow> BlobFileBuilder \<Rightarrow> (bytes \<times> BlockHandle) list \<Rightarrow>
     Abort + BlobFileBuilder \<times> (bytes \<times> BlockHandle) list \<times> BlockHandle" where
  "WriteCompressionDictBlock c b meta_index_builder =
     (case compression_dict b of
        None \<Rightarrow> Inl NullDereference
      | Some cd \<Rightarrow>
          (let (b1, handle) = WriteRawBlock c b (raw_dict cd)
           in if ok b1 then Inr (b1, meta_index_builder @ [(kCompressionDictBlock, handle)], handle)
              else Inr (b1, meta_index_builder, handle)))"

text \<open>
  Modelled from the spec: the footer a \<^verbatim>\<open>BlobFileFooter\<close> starts as, whose declaration
  is missing: its handles are "both zero-valued if no dictionary was written".
\<close>

definition null_handle :: BlockHandle where
  "null_handle = \<lparr>b_offset = 0, b_size = 0\<rparr>"

definition empty_footer :: BlobFileFooter where
  "empty_footer = \<lparr>meta_index_handle = null_handle, uncompression_dict_handle = null_handle\<rparr>"

text \<open>The end of \<^verbatim>\<open>Finish\<close>: the footer is appended and the file flushed.\<close>

definition write_footer ::
  "Codec \<Rightarrow> BlobFileBuilder \<Rightarrow> BlobFileFooter \<Rightarrow> Status \<times> BlobFileBuilder" where
  "write_footer c b footer =
     (let (s1, f1) = Append (file_writer b) (EncodeFooter c footer);
          b1 = b\<lparr>status := s1, file_writer := f1\<rparr>
      in if ok b1 then
           (let (s2, f2) = Flush (file_writer b1);
                b2 = b1\<lparr>status := s2, file_writer := f2\<rparr>
            in (status b2, b2))
         else (status b1, b1))"

definition Finish :: "Codec \<Rightarrow> BlobFileBuilder \<Rightarrow> Abort + Status \<times> BlobFileBuilder" where
  "Finish c b =
     (if \<not> ok b then Inr (status b, b)
      else
        (let b1 = (if builder_state b = kBuffered then EnterUnbuffered c b else b)
         in if DictionaryEnabled (cf_options b1) then
              (case WriteCompressionDictBlock c b1 [] of
                 Inl a \<Rightarrow> Inl a
               | Inr (b2, meta_index_builder, dict_handle) \<Rightarrow>
                   (let (b3, meta_handle) =
                          WriteRawBlock c b2 (MetaIndexBlock c meta_index_builder)
                    in Inr (write_footer c b3
                          (empty_footer\<lparr>meta_index_handle := meta_handle,
                             uncompression_dict_handle := dict_handle\<rparr>))))
            else Inr (write_footer c b1 empty_footer)))"

section \<open>Driving a builder\<close>

text \<open>
  The caller's loop, as in the test: every record is added with a fresh handle
  \<open>h0\<close>; the result lists the builder and the handle after each \<^verbatim>\<open>Add\<close>.
\<close>

fun add_all ::
  "Codec \<Rightarrow> BlobFileBuilder \<Rightarrow> BlobHandle \<Rightarrow> BlobRecord list \<Rightarrow>
     Abort + (BlobFileBuilder \<times> BlobHandle) list" where
  "add_all c b h0 [] = Inr []"
| "add_all c b h0 (r # rs) =
     (case Add c b r h0 of
        Inl a \<Rightarrow> Inl a
      | Inr (b', h) \<Rightarrow>
          (case add_all c b' h0 rs of
             Inl a \<Rightarrow> Inl a
           | Inr tr \<Rightarrow> Inr ((b', h) # tr)))"

definition last_builder ::
  "BlobFileBuilder \<Rightarrow> (BlobFileBuilder \<times> BlobHandle) list \<Rightarrow> BlobFileBuilder" where
  "last_builder b tr = (if tr = [] then b else fst (last tr))"

text \<open>A builder is made on the file, the records are added, the builder is finished.\<close>

definition build ::
  "Codec \<Rightarrow> TitanCFOptions \<Rightarrow> WritableFileWriter \<Rightarrow> BlobHandle \<Rightarrow> BlobRecord list \<Rightarrow>
     Abort + Status \<times> BlobFileBuilder \<times> (BlobFileBuilder \<times> BlobHandle) list" where
  "build c opts f h0 rs =
     (let b0 = NewBlobFileBuilder c opts f
      in case add_all c b0 h0 rs of
           Inl a \<Rightarrow> Inl a
         | Inr tr \<Rightarrow>
             (case Finish c (last_builder b0 tr) of
                Inl a \<Rightarrow> Inl a
              | Inr (s, bf) \<Rightarrow> Inr (s, bf, tr)))"

definition new_file :: WritableFileWriter where
  "new_file = \<lparr>contents = [], pending = []\<rparr>"

text \<open>The bytes of one record in the file: its header, then its body.\<close>

definition frame_of :: "Codec \<Rightarrow> CompressionDict option \<Rightarrow> bytes \<Rightarrow> bytes" where
  "frame_of c d s = (let (t, body) = Compress c d s in RecordHeader c t body @ body)"

definition frames :: "Codec \<Rightarrow> CompressionDict option \<Rightarrow> BlobRecord list \<Rightarrow> bytes" where
  "frames c d rs = concat (map (\<lambda>r. frame_of c d (EncodeTo c r)) rs)"

text \<open>The dictionary \<^verbatim>\<open>EnterUnbuffered\<close> trains from the samples.\<close>

definition trained_dict :: "Codec \<Rightarrow> TitanCFOptions \<Rightarrow> bytes list \<Rightarrow> CompressionDict" where
  "trained_dict c opts samples =
     (let lens = map (\<lambda>s. copy_len (zstd_max_train_bytes opts) (of_nat (length s))) samples
      in \<lparr>raw_dict = ZSTD_TrainDictionary c
                        (concat (map (\<lambda>(s, n). take (unat n) s) (zip samples lens)))
                        lens (max_dict_bytes opts),
          dict_type = blob_file_compression opts,
          dict_level = level opts\<rparr>)"

section \<open>A small codec for running the model\<close>

text \<open>
  Concrete stand-ins for the external primitives, small enough to run: one byte for each
  length, a checksum that is a function of the length, a "compression" that reverses the
  bytes when a dictionary is installed.
\<close>

definition toy_codec :: Codec where
  "toy_codec =
     \<lparr>EncodeHeader = (\<lambda>flags. [CHR ''B'', char_of (unat flags)]),
      EncodeFooter = (\<lambda>ft. map (\<lambda>w. char_of (unat w))
         [b_offset (meta_index_handle ft), b_size (meta_index_handle ft),
          b_offset (uncompression_dict_handle ft), b_size (uncompression_dict_handle ft)]),
      EncodeTo = (\<lambda>r. char_of (length (key r)) # key r @ val r),
      Compress = (\<lambda>d s. case d of None \<Rightarrow> (CHR ''n'', s) | Some cd \<Rightarrow> (CHR ''z'', rev s)),
      RecordHeader = (\<lambda>t body. [char_of (length body + 7), char_of (length body), t]),
      ZSTD_TrainDictionary = (\<lambda>samples lens n. take (unat n) samples),
      crc32c_Value = (\<lambda>bs. of_nat (length bs)),
      crc32c_Extend = (\<lambda>crc bs. crc + of_nat (length bs)),
      crc32c_Mask = (\<lambda>crc. crc + 1),
      MetaIndexBlock = (\<lambda>es. concat (map (\<lambda>(k, h). k @ [char_of (unat (b_offset h)), char_of (unat (b_size h))]) es)),
      kHeaderSize = 2,
      kFooterSize = 4,
      kRecordHeaderSize = 3,
      DecodeHeader = (\<lambda>bs. case bs of [m, f] \<Rightarrow> if m = CHR ''B'' then Some (of_nat (of_char f)) else None | _ \<Rightarrow> None),
      DecodeFooter = (\<lambda>bs. case bs of
         [a, b, c, d] \<Rightarrow>
           Some \<lparr>meta_index_handle = \<lparr>b_offset = of_nat (of_char a), b_size = of_nat (of_char b)\<rparr>,
                 uncompression_dict_handle = \<lparr>b_offset = of_nat (of_char c), b_size = of_nat (of_char d)\<rparr>\<rparr>
       | _ \<Rightarrow> None),
      DecodeRecordHeader = (\<lambda>bs. case bs of [crc, n, t] \<Rightarrow> Some (t, of_char n) | _ \<Rightarrow> None),
      VerifyChecksum = (\<lambda>hdr body. case hdr of [] \<Rightarrow> False | crc # _ \<Rightarrow> crc = char_of (length body + 7)),
      Uncompress = (\<lambda>d t body. if t = CHR ''n'' then Some body
                                else if t = CHR ''z'' \<and> d \<noteq> None then Some (rev body) else None),
      DecodeFrom = (\<lambda>bs. case bs of [] \<Rightarrow> None
         | n # rest \<Rightarrow> if of_char n \<le> length rest
                      then Some \<lparr>key = take (of_char n) rest, val = drop (of_char n) rest\<rparr> else None)\<rparr>"

text \<open>The bytewise comparator, the default of the options.\<close>

fun bytewise_cmp :: "bytes \<Rightarrow> bytes \<Rightarrow> int" where
  "bytewise_cmp [] [] = 0"
| "bytewise_cmp [] (y # ys) = -1"
| "bytewise_cmp (x # xs) [] = 1"
| "bytewise_cmp (x # xs) (y # ys) =
     (if (of_char x :: nat) < of_char y then -1
      else if (of_char y :: nat) < of_char x then 1 else bytewise_cmp xs ys)"

definition toy_options :: "bool \<Rightarrow> u64 \<Rightarrow> TitanCFOptions" where
  "toy_options dict train =
     \<lparr>blob_file_compression = 7, level = 3, max_dict_bytes = 3,
      zstd_max_train_bytes = train, comparator = bytewise_cmp, DictionaryEnabled = dict\<rparr>"

definition h0 :: BlobHandle where
  "h0 = \<lparr>h_offset = 0, h_size = 0\<rparr>"

definition failing_write :: BlobFileBuilder where
  "failing_write =
     (NewBlobFileBuilder toy_codec (toy_options False 0)
        \<lparr>contents = [], pending = [OK, OK, IOError 5]\<rparr>)
     \<lparr>encoder := \<lparr>GetHeader = ''hdr'', GetRecord = ''body'', enc_dict = None\<rparr>\<rparr>"

definition plain_builder :: BlobFileBuilder where
  "plain_builder = NewBlobFileBuilder toy_codec (toy_options False 0) new_file"

definition dict_builder :: BlobFileBuilder where
  "dict_builder = NewBlobFileBuilder toy_codec (toy_options True 0) new_file"

definition rec_a :: BlobRecord where
  "rec_a = \<lparr>key = ''a'', val = ''xy''\<rparr>"

definition rec_b :: BlobRecord where
  "rec_b = \<lparr>key = ''b'', val = ''uvw''\<rparr>"

definition rec_c :: BlobRecord where
  "rec_c = \<lparr>key = ''c'', val = ''''\<rparr>"

definition faulty_file :: WritableFileWriter where
  "faulty_file = \<lparr>contents = [], pending = [OK, OK, IOError 5]\<rparr>"

section \<open>Invariants of a run without faults\<close>

text \<open>
  What holds of a builder made on a file without faults after the records \<open>done\<close> were
  added: while buffered the file holds the header alone and the samples are the
  serialised records; once unbuffered the file holds the header and the frame of every
  record, in order, all encoded with the builder's dictionary.
\<close>

definition builder_inv ::
  "Codec \<Rightarrow> TitanCFOptions \<Rightarrow> BlobRecord list \<Rightarrow> BlobFileBuilder \<Rightarrow> bool" where
  "builder_inv c opts done b \<longleftrightarrow>
     status b = OK \<and> pending (file_writer b) = [] \<and> cf_options b = opts \<and>
     enc_dict (encoder b) = compression_dict b \<and>
     (case builder_state b of
        kBuffered \<Rightarrow>
          DictionaryEnabled opts \<and> compression_dict b = None \<and>
          contents (file_writer b) = EncodeHeader c (header_flags opts) \<and>
          sample_records b = map (EncodeTo c) done \<and>
          sample_str_len b = of_nat (sum_list (map (\<lambda>r. length (EncodeTo c r)) done)) \<and>
          num_entries b = 0
      | kUnbuffered \<Rightarrow>
          (compression_dict b \<noteq> None) = DictionaryEnabled opts \<and>
          sample_records b = [] \<and> sample_str_len b = 0 \<and>
          contents (file_writer b) =
            EncodeHeader c (header_flags opts) @ frames c (compression_dict b) done \<and>
          num_entries b = of_nat (length done))"

text \<open>The keys of \<open>rs\<close> pass the assertions of a builder, one after the other.\<close>

definition keys_accepted :: "BlobFileBuilder \<Rightarrow> BlobRecord list \<Rightarrow> bool" where
  "keys_accepted b rs \<longleftrightarrow>
     sorted_wrt (\<lambda>x y. 0 \<le> comparator (cf_options b) (key y) (key x)) rs \<and>
     (\<forall>r\<in>set rs. 0 \<le> comparator (cf_options b) (key r) (key r) \<and>
                 0 \<le> comparator (cf_options b) (key r) (smallest_key b) \<and>
                 0 \<le> comparator (cf_options b) (key r) (largest_key b))"

text \<open>The threshold test of \<^verbatim>\<open>Add\<close>, on the records buffered so far.\<close>

definition threshold_crossed :: "Codec \<Rightarrow> TitanCFOptions \<Rightarrow> BlobRecord list \<Rightarrow> bool" where
  "threshold_crossed c opts rs \<longleftrightarrow>
     zstd_max_train_bytes opts > 0 \<and>
     (of_nat (sum_list (map (\<lambda>r. length (EncodeTo c r)) rs)) :: u64) \<ge> zstd_max_train_bytes opts"

text \<open>
  What one \<^verbatim>\<open>Add\<close> does in such a run, from the builder \<open>b\<close> before it to the builder
  and handle after it.
\<close>

definition add_post ::
  "Codec \<Rightarrow> TitanCFOptions \<Rightarrow> BlobHandle \<Rightarrow> BlobRecord list \<Rightarrow> BlobRecord \<Rightarrow>
     BlobFileBuilder \<Rightarrow> BlobFileBuilder \<times> BlobHandle \<Rightarrow> bool" where
  "add_post c opts h done r b x \<longleftrightarrow>
     builder_inv c opts (done @ [r]) (fst x) \<and>
     (case builder_state b of
        kUnbuffered \<Rightarrow>
          builder_state (fst x) = kUnbuffered \<and>
          compression_dict (fst x) = compression_dict b \<and>
          snd x = \<lparr>h_offset = GetFileSize (file_writer b),
                   h_size = of_nat (length (frame_of c (compression_dict b) (EncodeTo c r)))\<rparr>
      | kBuffered \<Rightarrow>
          snd x = h \<and>
          (if threshold_crossed c opts (done @ [r])
           then builder_state (fst x) = kUnbuffered \<and>
                compression_dict (fst x) =
                  Some (trained_dict c opts (map (EncodeTo c) (done @ [r])))
           else builder_state (fst x) = kBuffered))"

section \<open>The finished file\<close>

text \<open>
  The bytes a run without faults leaves in the file, for the records \<open>rs\<close> and the
  dictionary \<open>d\<close> of the builder: header, frames, the dictionary block and the meta-index
  block when there is a dictionary, footer.
\<close>

definition records_end ::
  "Codec \<Rightarrow> TitanCFOptions \<Rightarrow> CompressionDict option \<Rightarrow> BlobRecord list \<Rightarrow> nat" where
  "records_end c opts d rs = length (EncodeHeader c (header_flags opts)) + length (frames c d rs)"

definition dict_block_handle ::
  "Codec \<Rightarrow> TitanCFOptions \<Rightarrow> CompressionDict \<Rightarrow> BlobRecord list \<Rightarrow> BlockHandle" where
  "dict_block_handle c opts cd rs =
     \<lparr>b_offset = of_nat (records_end c opts (Some cd) rs), b_size = of_nat (length (raw_dict cd))\<rparr>"

definition meta_block ::
  "Codec \<Rightarrow> TitanCFOptions \<Rightarrow> CompressionDict \<Rightarrow> BlobRecord list \<Rightarrow> bytes" where
  "meta_block c opts cd rs =
     MetaIndexBlock c [(kCompressionDictBlock, dict_block_handle c opts cd rs)]"

definition meta_block_handle ::
  "Codec \<Rightarrow> TitanCFOptions \<Rightarrow> CompressionDict \<Rightarrow> BlobRecord list \<Rightarrow> BlockHandle" where
  "meta_block_handle c opts cd rs =
     \<lparr>b_offset = of_nat (records_end c opts (Some cd) rs + length (raw_dict cd) +
                          length (block_trailer c (raw_dict cd))),
      b_size = of_nat (length (meta_block c opts cd rs))\<rparr>"

definition final_footer ::
  "Codec \<Rightarrow> TitanCFOptions \<Rightarrow> CompressionDict option \<Rightarrow> BlobRecord list \<Rightarrow> BlobFileFooter" where
  "final_footer c opts d rs =
     (case d of
        None \<Rightarrow> empty_footer
      | Some cd \<Rightarrow> \<lparr>meta_index_handle = meta_block_handle c opts cd rs,
                    uncompression_dict_handle = dict_block_handle c opts cd rs\<rparr>)"

definition meta_blocks ::
  "Codec \<Rightarrow> TitanCFOptions \<Rightarrow> CompressionDict option \<Rightarrow> BlobRecord list \<Rightarrow> bytes" where
  "meta_blocks c opts d rs =
     (case d of
        None \<Rightarrow> []
      | Some cd \<Rightarrow> raw_dict cd @ block_trailer c (raw_dict cd) @
                   meta_block c opts cd rs @ block_trailer c (meta_block c opts cd rs))"

definition file_image ::
  "Codec \<Rightarrow> TitanCFOptions \<Rightarrow> CompressionDict option \<Rightarrow> BlobRecord list \<Rightarrow> bytes" where
  "file_image c opts d rs =
     EncodeHeader c (header_flags opts) @ frames c d rs @ meta_blocks c opts d rs @
     EncodeFooter c (final_footer c opts d rs)"

section \<open>The iterator\<close>

text \<open>The bytes a block handle points at.\<close>

definition block_at :: "bytes \<Rightarrow> BlockHandle \<Rightarrow> bytes" where
  "block_at data handle = take (unat (b_size handle)) (drop (unat (b_offset handle)) data)"

text \<open>
  Modelled from the spec: the blob file iterator, whose source is missing; the test of
  the iterator shows how it is called. The layout of a file is
  "[Header][Record]*[DictionaryBlock (optional)][MetaIndexBlock (optional)][Footer]",
  the "Header carries a flag bit signaling dictionary presence", the "Footer carries the
  two block handles (zero when absent) and is fixed-size and always the final bytes of
  the file". So the iterator starts by decoding header and footer; the records end where
  the dictionary block starts, or where the footer starts when there is no dictionary.
\<close>

record BlobFileIterator =
  it_file :: bytes
  init_status :: Status
  uncompression_dict :: "bytes option"
  end_of_blob_record :: nat
  iterate_offset :: nat
  it_status :: Status
  valid :: bool
  cur_key :: bytes
  cur_value :: bytes
  cur_handle :: BlobHandle

definition NewBlobFileIterator :: "Codec \<Rightarrow> bytes \<Rightarrow> BlobFileIterator" where
  "NewBlobFileIterator c data =
     (let blank = \<lparr>it_file = data, init_status = Corruption, uncompression_dict = None,
                    end_of_blob_record = 0, iterate_offset = 0, it_status = OK, valid = False,
                    cur_key = [], cur_value = [],
                    cur_handle = \<lparr>h_offset = 0, h_size = 0\<rparr>\<rparr>
      in if length data < kHeaderSize c + kFooterSize c then blank
         else
           (case DecodeHeader c (take (kHeaderSize c) data) of
              None \<Rightarrow> blank
            | Some flags \<Rightarrow>
                (case DecodeFooter c (drop (length data - kFooterSize c) data) of
                   None \<Rightarrow> blank
                 | Some footer \<Rightarrow>
                     if flags AND kHasUncompressionDictionary \<noteq> 0 then
                       blank\<lparr>init_status := OK,
                         uncompression_dict :=
                           Some (block_at data (uncompression_dict_handle footer)),
                         end_of_blob_record :=
                           unat (b_offset (uncompression_dict_handle footer))\<rparr>
                     else
                       blank\<lparr>init_status := OK,
                         end_of_blob_record := length data - kFooterSize c\<rparr>)))"

text \<open>
  Modelled from the spec: reading the record at an offset. \<^verbatim>\<open>Next\<close> "decodes the header
  at the current read cursor, validates its checksum, decodes the body (decompressing if
  needed)"; a "malformed header, checksum mismatch, truncated read" is an error. The result
  of \<open>read_header\<close> is the compression type and the length of the body; a record of no
  bytes at all counts as malformed.
\<close>

definition read_header :: "Codec \<Rightarrow> BlobFileIterator \<Rightarrow> nat \<Rightarrow> (char \<times> nat) option" where
  "read_header c it off =
     (if end_of_blob_record it < off + kRecordHeaderSize c then None
      else
        (case DecodeRecordHeader c (take (kRecordHeaderSize c) (drop off (it_file it))) of
           None \<Rightarrow> None
         | Some (t, n) \<Rightarrow>
             if end_of_blob_record it < off + kRecordHeaderSize c + n \<or>
                kRecordHeaderSize c + n = 0 then None
             else if \<not> VerifyChecksum c (take (kRecordHeaderSize c) (drop off (it_file it)))
                        (take n (drop (off + kRecordHeaderSize c) (it_file it))) then None
             else Some (t, n)))"

definition read_record :: "Codec \<Rightarrow> BlobFileIterator \<Rightarrow> nat \<Rightarrow> (BlobRecord \<times> nat) option" where
  "read_record c it off =
     (case read_header c it off of
        None \<Rightarrow> None
      | Some (t, n) \<Rightarrow>
          (case Uncompress c (uncompression_dict it) t
                  (take n (drop (off + kRecordHeaderSize c) (it_file it))) of
             None \<Rightarrow> None
           | Some s \<Rightarrow>
               (case DecodeFrom c s of
                  None \<Rightarrow> None
                | Some r \<Rightarrow> Some (r, kRecordHeaderSize c + n))))"

text \<open>
  Modelled from the spec: \<^verbatim>\<open>Next\<close> "advances the cursor past the record, and becomes
  Valid; on any malformed header, checksum mismatch, truncated read, or end-of-data,
  becomes Invalid and records the specific error (or a clean no more records
  status when exactly at the footer boundary)"; an invalid iterator stays so "until reset
  by a new seek".
\<close>

definition Next :: "Codec \<Rightarrow> BlobFileIterator \<Rightarrow> BlobFileIterator" where
  "Next c it =
     (if it_status it \<noteq> OK then it\<lparr>valid := False\<rparr>
      else if iterate_offset it = end_of_blob_record it then it\<lparr>valid := False\<rparr>
      else
        (case read_record c it (iterate_offset it) of
           None \<Rightarrow> it\<lparr>valid := False, it_status := Corruption\<rparr>
         | Some (r, len) \<Rightarrow>
             it\<lparr>valid := True, cur_key := key r, cur_value := val r,
                cur_handle := \<lparr>h_offset = of_nat (iterate_offset it), h_size = of_nat len\<rparr>,
                iterate_offset := iterate_offset it + len\<rparr>))"

text \<open>
  Modelled from the spec: \<^verbatim>\<open>SeekToFirst\<close>, which starts the iteration at the first
  record. The spec has the first \<^verbatim>\<open>Next\<close> decode it; the test reads key, value and
  handle of the first record right after the seek and calls \<^verbatim>\<open>Next\<close> between the
  records, so here, as in the test, the seek itself reads the first record.
\<close>

definition SeekToFirst :: "Codec \<Rightarrow> BlobFileIterator \<Rightarrow> BlobFileIterator" where
  "SeekToFirst c it =
     (if init_status it \<noteq> OK then it\<lparr>valid := False, it_status := init_status it\<rparr>
      else Next c (it\<lparr>it_status := OK, iterate_offset := kHeaderSize c\<rparr>))"

text \<open>
  Modelled from the spec: \<^verbatim>\<open>IterateForPrev\<close>. "Scan record headers sequentially from
  the start of the data region, tracking the most recently fully-parsed record's start
  offset; stop scanning - without consuming the record that starts beyond the target -
  once the next record's start offset would exceed \<^verbatim>\<open>target_offset\<close>"; "every header
  length field it reads must itself be checksum-validated", "otherwise the scan must fail
  closed with a decode error". The scan returns the offset to read next.
\<close>

function scan_for_prev :: "Codec \<Rightarrow> BlobFileIterator \<Rightarrow> nat \<Rightarrow> nat \<Rightarrow> nat option" where
  "scan_for_prev c it target off =
     (if end_of_blob_record it \<le> off then Some off
      else
        (case read_header c it off of
           None \<Rightarrow> None
         | Some (t, n) \<Rightarrow>
             if target < off + kRecordHeaderSize c + n then Some off
             else scan_for_prev c it target (off + kRecordHeaderSize c + n)))"
  by pat_completeness auto
termination
  by (relation "measure (\<lambda>(c, it, target, off). end_of_blob_record it - off)")
     (auto simp: read_header_def split: if_splits option.splits)

definition IterateForPrev :: "Codec \<Rightarrow> BlobFileIterator \<Rightarrow> u64 \<Rightarrow> BlobFileIterator" where
  "IterateForPrev c it target =
     (if init_status it \<noteq> OK then it\<lparr>valid := False, it_status := init_status it\<rparr>
      else
        (case scan_for_prev c it (unat target) (kHeaderSize c) of
           None \<Rightarrow> it\<lparr>valid := False, it_status := Corruption\<rparr>
         | Some off \<Rightarrow> it\<lparr>valid := False, it_status := OK, iterate_offset := off\<rparr>))"

text \<open>
  The loop of the test: \<open>n\<close> times, what the iterator shows (nothing when it is not valid
  or has an error), then \<^verbatim>\<open>Next\<close>.
\<close>

fun read_n ::
  "Codec \<Rightarrow> nat \<Rightarrow> BlobFileIterator \<Rightarrow> (bytes \<times> bytes \<times> BlobHandle) option list" where
  "read_n c 0 it = []"
| "read_n c (Suc n) it =
     (if valid it \<and> it_status it = OK then Some (cur_key it, cur_value it, cur_handle it)
      else None) # read_n c n (Next c it)"

text \<open>The builder that the run on three small records ends with.\<close>

definition toy_final :: "bool \<Rightarrow> u64 \<Rightarrow> BlobFileBuilder" where
  "toy_final dict train =
     fst (snd (projr (build toy_codec (toy_options dict train) new_file h0 [rec_a, rec_b, rec_c])))"

text \<open>The reverse of the bytewise comparator, and options with it.\<close>

definition reverse_cmp :: "bytes \<Rightarrow> bytes \<Rightarrow> int" where
  "reverse_cmp a b = - bytewise_cmp a b"

definition reverse_options :: TitanCFOptions where
  "reverse_options = (toy_options False 0)\<lparr>comparator := reverse_cmp\<rparr>"

section \<open>What reading a file back needs of the codec\<close>

text \<open>
  The decoders undo the encoders on a record: the header of the record has the fixed
  size and decodes to the type and the length of the body, the checksum holds, the body
  uncompresses with the raw dictionary to the serialised record, which decodes to the
  record; a record takes at least one byte.
\<close>

definition record_fits :: "Codec \<Rightarrow> CompressionDict option \<Rightarrow> BlobRecord \<Rightarrow> bool" where
  "record_fits c d r \<longleftrightarrow>
     (let s = EncodeTo c r;
          (t, body) = Compress c d s;
          hdr = RecordHeader c t body
      in length hdr = kRecordHeaderSize c \<and> hdr @ body \<noteq> [] \<and>
         DecodeRecordHeader c hdr = Some (t, length body) \<and>
         VerifyChecksum c hdr body \<and>
         Uncompress c (map_option raw_dict d) t body = Some s \<and>
         DecodeFrom c s = Some r)"

text \<open>
  The same for the file of the records \<open>rs\<close>: header and footer have their fixed sizes
  and decode to what was encoded, every record fits, and the file is shorter than
  \<open>2 ^ 64\<close> bytes.
\<close>

definition codec_fits ::
  "Codec \<Rightarrow> TitanCFOptions \<Rightarrow> CompressionDict option \<Rightarrow> BlobRecord list \<Rightarrow> bool" where
  "codec_fits c opts d rs \<longleftrightarrow>
     length (EncodeHeader c (header_flags opts)) = kHeaderSize c \<and>
     DecodeHeader c (EncodeHeader c (header_flags opts)) = Some (header_flags opts) \<and>
     length (EncodeFooter c (final_footer c opts d rs)) = kFooterSize c \<and>
     DecodeFooter c (EncodeFooter c (final_footer c opts d rs)) = Some (final_footer c opts d rs) \<and>
     (\<forall>r\<in>set rs. record_fits c d r) \<and>
     length (file_image c opts d rs) < 2 ^ 64"

text \<open>The byte range of the \<open>i\<close>-th record in the finished file.\<close>

definition record_handle ::
  "Codec \<Rightarrow> TitanCFOptions \<Rightarrow> CompressionDict option \<Rightarrow> BlobRecord list \<Rightarrow> nat \<Rightarrow> BlobHandle" where
  "record_handle c opts d rs i =
     \<lparr>h_offset = of_nat (records_end c opts d (take i rs)),
      h_size = of_nat (length (frame_of c d (EncodeTo c (rs ! i))))\<rparr>"

text \<open>
  An iterator on the finished file whose next read is at the start of record \<open>i\<close>, and
  one that shows record \<open>i\<close>.
\<close>

definition positioned ::
  "Codec \<Rightarrow> TitanCFOptions \<Rightarrow> CompressionDict option \<Rightarrow> BlobRecord list \<Rightarrow>
     BlobFileIterator \<Rightarrow> nat \<Rightarrow> bool" where
  "positioned c opts d rs it i \<longleftrightarrow>
     it_file it = file_image c opts d rs \<and>
     uncompression_dict it = map_option raw_dict d \<and>
     end_of_blob_record it = records_end c opts d rs \<and>
     init_status it = OK \<and> it_status it = OK \<and>
     iterate_offset it = records_end c opts d (take i rs)"

definition showing ::
  "Codec \<Rightarrow> TitanCFOptions \<Rightarrow> CompressionDict option \<Rightarrow> BlobRecord list \<Rightarrow>
     BlobFileIterator \<Rightarrow> nat \<Rightarrow> bool" where
  "showing c opts d rs it i \<longleftrightarrow>
     positioned c opts d rs it (Suc i) \<and> valid it \<and>
     cur_key it = key (rs ! i) \<and> cur_value it = val (rs ! i) \<and>
     cur_handle it = record_handle c opts d rs i"

section \<open>Properties\<close>

lemmas builder_defs =
  build_def NewBlobFileBuilder_def Append_def Flush_def Add_def ok_def header_flags_def
  Finish_def EnterUnbuffered_def FlushSampleRecords_def WriteEncoderData_def last_builder_def
  EncodeSlice_def EncodeRecord_def WriteCompressionDictBlock_def WriteRawBlock_def
  write_footer_def SetCompressionDict_def GetFileSize_def GetEncodedSize_def NumEntries_def
  new_file_def kHasUncompressionDictionary_def

lemmas toy_defs = toy_codec_def toy_options_def h0_def

lemma Append_ok [simp]:
  "pending f = [] \<Longrightarrow> Append f d = (OK, f\<lparr>contents := contents f @ d\<rparr>)"
  by (simp add: Append_def)

lemma Append_contents:
  "Append f d = (s, f') \<Longrightarrow> contents f' = (if s = OK then contents f @ d else contents f)"
  by (auto simp: Append_def split: list.splits)

subsection \<open>A failed append is not rolled back\<close>

text \<open>
  Claim C10. \<^verbatim>\<open>WriteEncoderData\<close> sets the handle's offset and size and adds the size
  to the live-data count before the first append, whatever the appends return; the entry
  count goes up exactly when the append of the header succeeds. So when the header is
  appended and the body is not, the builder ends with an error status, the file holds the
  header alone, and handle, live-data count and entry count all describe a record that
  was not written.
\<close>

theorem WriteEncoderData_accounting:
  "h_offset (snd (WriteEncoderData b)) = GetFileSize (file_writer b) \<and>
   h_size (snd (WriteEncoderData b)) = GetEncodedSize (encoder b) \<and>
   live_data_size (fst (WriteEncoderData b)) = live_data_size b + GetEncodedSize (encoder b) \<and>
   num_entries (fst (WriteEncoderData b)) =
     (if fst (Append (file_writer b) (GetHeader (encoder b))) = OK
      then num_entries b + 1 else num_entries b) \<and>
   (fst (Append (file_writer b) (GetHeader (encoder b))) = OK \<longrightarrow>
    fst (Append (snd (Append (file_writer b) (GetHeader (encoder b)))) (GetRecord (encoder b))) \<noteq> OK \<longrightarrow>
      status (fst (WriteEncoderData b)) \<noteq> OK \<and>
      contents (file_writer (fst (WriteEncoderData b))) =
        contents (file_writer b) @ GetHeader (encoder b))"
proof -
  obtain s1 f1 where a1: "Append (file_writer b) (GetHeader (encoder b)) = (s1, f1)"
    by (cases "Append (file_writer b) (GetHeader (encoder b))")
  obtain s2 f2 where a2: "Append f1 (GetRecord (encoder b)) = (s2, f2)"
    by (cases "Append f1 (GetRecord (encoder b))")
  show ?thesis
    using a1 a2 Append_contents [OF a1] Append_contents [OF a2]
    by (simp add: WriteEncoderData_def ok_def Let_def)
qed

theorem WriteEncoderData_accounting_witness:
  "h_offset (snd (WriteEncoderData failing_write)) = 2 \<and>
   h_size (snd (WriteEncoderData failing_write)) = 7 \<and>
   live_data_size (fst (WriteEncoderData failing_write)) = 7 \<and>
   num_entries (fst (WriteEncoderData failing_write)) = 1 \<and>
   status (fst (WriteEncoderData failing_write)) = IOError 5 \<and>
   contents (file_writer (fst (WriteEncoderData failing_write))) = EncodeHeader toy_codec 0 @ ''hdr''"
  using WriteEncoderData_accounting [of failing_write]
  by (simp add: failing_write_def builder_defs toy_defs)

subsection \<open>An unbuffered \<^verbatim>\<open>Add\<close>\<close>

text \<open>
  Claim C3. An \<^verbatim>\<open>Add\<close> on a builder that is unbuffered and has no error, with a key
  that passes the order assertions, returns a handle whose offset is the size of the file
  before the call and whose size is the length of the record's header and body together;
  the record is encoded with the encoder's dictionary and, when the sink takes both
  appends, the file grows by exactly the header followed by the body.
\<close>

theorem Add_unbuffered_handle:
  assumes "ok b" and "builder_state b = kUnbuffered"
    and "0 \<le> comparator (cf_options b) (key r)
                (if smallest_key b = [] then key r else smallest_key b)"
    and "0 \<le> comparator (cf_options b) (key r) (largest_key b)"
  shows "\<exists>b'. Add c b r h =
            Inr (b', \<lparr>h_offset = GetFileSize (file_writer b),
                      h_size = of_nat (length (frame_of c (enc_dict (encoder b)) (EncodeTo c r)))\<rparr>) \<and>
          (status b' = OK \<longrightarrow>
             contents (file_writer b') =
               contents (file_writer b) @ frame_of c (enc_dict (encoder b)) (EncodeTo c r))"
proof -
  obtain t body where cp: "Compress c (enc_dict (encoder b)) (EncodeTo c r) = (t, body)"
    by (cases "Compress c (enc_dict (encoder b)) (EncodeTo c r)")
  obtain s1 f1 where a1: "Append (file_writer b) (RecordHeader c t body) = (s1, f1)"
    by (cases "Append (file_writer b) (RecordHeader c t body)")
  obtain s2 f2 where a2: "Append f1 body = (s2, f2)"
    by (cases "Append f1 body")
  show ?thesis
    using assms cp a1 a2 Append_contents [OF a1] Append_contents [OF a2]
    by (auto simp: Add_def WriteEncoderData_def ok_def Let_def frame_of_def EncodeRecord_def
        EncodeSlice_def GetEncodedSize_def)
qed

theorem Add_unbuffered_handle_witness:
  "ok plain_builder \<and> builder_state plain_builder = kUnbuffered \<and>
   (\<exists>b'. Add toy_codec plain_builder \<lparr>key = ''a'', val = ''xy''\<rparr> h0 =
            Inr (b', \<lparr>h_offset = 2, h_size = 7\<rparr>) \<and>
          contents (file_writer b') =
            EncodeHeader toy_codec 0 @
            RecordHeader toy_codec (CHR ''n'') (EncodeTo toy_codec \<lparr>key = ''a'', val = ''xy''\<rparr>) @
            EncodeTo toy_codec \<lparr>key = ''a'', val = ''xy''\<rparr>)"
proof -
  have 1: "ok plain_builder" and 2: "builder_state plain_builder = kUnbuffered"
    by (simp_all add: plain_builder_def builder_defs toy_defs)
  have 3: "0 \<le> comparator (cf_options plain_builder) (key \<lparr>key = ''a'', val = ''xy''\<rparr>)
                (if smallest_key plain_builder = [] then key \<lparr>key = ''a'', val = ''xy''\<rparr>
                 else smallest_key plain_builder)"
    and 4: "0 \<le> comparator (cf_options plain_builder) (key \<lparr>key = ''a'', val = ''xy''\<rparr>)
                (largest_key plain_builder)"
    by (simp_all add: plain_builder_def builder_defs toy_defs)
  show ?thesis
    using 1 2 Add_unbuffered_handle [OF 1 2 3 4, of toy_codec h0]
    by (auto simp: plain_builder_def builder_defs toy_defs frame_of_def)
qed

lemmas rec_defs = rec_a_def rec_b_def rec_c_def

subsection \<open>What replay leaves alone\<close>

lemma WriteEncoderData_frame:
  "cf_options (fst (WriteEncoderData b)) = cf_options b \<and>
   builder_state (fst (WriteEncoderData b)) = builder_state b \<and>
   encoder (fst (WriteEncoderData b)) = encoder b \<and>
   sample_records (fst (WriteEncoderData b)) = sample_records b \<and>
   sample_str_len (fst (WriteEncoderData b)) = sample_str_len b \<and>
   compression_dict (fst (WriteEncoderData b)) = compression_dict b \<and>
   smallest_key (fst (WriteEncoderData b)) = smallest_key b \<and>
   largest_key (fst (WriteEncoderData b)) = largest_key b"
  by (simp add: WriteEncoderData_def Let_def split: prod.splits)

lemma EncodeSlice_dict [simp]: "enc_dict (EncodeSlice c e s) = enc_dict e"
  by (simp add: EncodeSlice_def split: prod.splits)

lemma replay_frame:
  "cf_options (replay c ss b) = cf_options b \<and>
   builder_state (replay c ss b) = builder_state b \<and>
   enc_dict (encoder (replay c ss b)) = enc_dict (encoder b) \<and>
   sample_records (replay c ss b) = sample_records b \<and>
   sample_str_len (replay c ss b) = sample_str_len b \<and>
   compression_dict (replay c ss b) = compression_dict b \<and>
   smallest_key (replay c ss b) = smallest_key b \<and>
   largest_key (replay c ss b) = largest_key b"
  by (induction ss arbitrary: b) (simp_all add: WriteEncoderData_frame)

lemma trained_dict_eq:
  "trained_dict c opts samples =
     \<lparr>raw_dict = ZSTD_TrainDictionary c
        (concat (map (\<lambda>s. take (unat (copy_len (zstd_max_train_bytes opts) (of_nat (length s)))) s) samples))
        (map (\<lambda>s. copy_len (zstd_max_train_bytes opts) (of_nat (length s))) samples)
        (max_dict_bytes opts),
      dict_type = blob_file_compression opts, dict_level = level opts\<rparr>"
  by (simp add: trained_dict_def Let_def zip_map2 zip_same_conv_map comp_def)

lemma EnterUnbuffered_frame:
  "cf_options (EnterUnbuffered c b) = cf_options b \<and>
   builder_state (EnterUnbuffered c b) = kUnbuffered \<and>
   enc_dict (encoder (EnterUnbuffered c b)) = Some (trained_dict c (cf_options b) (sample_records b)) \<and>
   sample_records (EnterUnbuffered c b) = [] \<and>
   sample_str_len (EnterUnbuffered c b) = 0 \<and>
   compression_dict (EnterUnbuffered c b) = Some (trained_dict c (cf_options b) (sample_records b)) \<and>
   smallest_key (EnterUnbuffered c b) = smallest_key b \<and>
   largest_key (EnterUnbuffered c b) = largest_key b"
  by (simp add: EnterUnbuffered_def FlushSampleRecords_def replay_frame Let_def
      SetCompressionDict_def trained_dict_def)

lemma copy_len_small:
  assumes "0 < t" "t < n" "unat n \<le> 2 ^ 63"
  shows "copy_len t n = n"
proof -
  have lt: "unat t < unat n" using assms(2) by (simp add: word_less_nat_alt)
  have "unat (t - n) = unat t + 2 ^ 64 - unat n"
    using lt by (simp add: unat_sub_if_size word_size)
  then have "unat n \<le> unat (t - n)" using assms(3) by simp
  then have "n \<le> t - n" by (simp add: word_le_nat_alt)
  then show ?thesis using assms(1) by (simp add: copy_len_def min_def)
qed

subsection \<open>The length a sample contributes to the training corpus\<close>

text \<open>
  The code computes the cap \<open>min (budget - length) length\<close> only when the budget is
  positive and takes the length as it is otherwise. For a sample of at most \<open>2 ^ 63\<close>
  bytes, which is every sample a string can hold, the two are the same value also when
  the budget is zero, and the cap is the full length whenever the budget is below the
  length.
\<close>

lemma copy_len_is_cap:
  assumes "unat n \<le> 2 ^ 63"
  shows "copy_len t n = min (t - n) n"
proof (cases "0 < t")
  case True
  then show ?thesis by (simp add: copy_len_def)
next
  case False
  then have t: "t = 0" by (simp add: word_greater_zero_iff)
  have "n \<le> 0 - n"
  proof (cases "n = 0")
    case True
    then show ?thesis by simp
  next
    case False
    then have "0 < unat n" by (simp add: unat_gt_0)
    then have "unat (0 - n) = 2 ^ 64 - unat n"
      using unat_sub_if_size [of 0 n] by (simp add: word_size)
    then have "unat n \<le> unat (0 - n)" using assms by simp
    then show ?thesis by (simp add: word_le_nat_alt)
  qed
  then show ?thesis by (simp add: copy_len_def t min_def)
qed

lemma copy_len_underflow:
  assumes "t < n" and "unat n \<le> 2 ^ 63"
  shows "copy_len t n = n"
proof (cases "0 < t")
  case True
  then show ?thesis using copy_len_small assms by blast
next
  case False
  then show ?thesis by (simp add: copy_len_def)
qed

text \<open>
  Claim C6. \<^verbatim>\<open>EnterUnbuffered\<close> trains the dictionary on the samples, each cut to
  the minimum of \<open>budget - length\<close>, computed in unsigned 64-bit arithmetic, and its
  length, and passes these minima to the trainer as the lengths of the samples. This
  holds for every budget, the zero budget included; and for every sample longer than the
  budget the subtraction wraps around and the minimum is the full length of the sample.
  The samples are those a string can hold: at most \<open>2 ^ 63\<close> bytes each.
\<close>

theorem EnterUnbuffered_sample_cap:
  assumes "\<forall>s\<in>set (sample_records b). length s \<le> 2 ^ 63"
  shows "compression_dict (EnterUnbuffered c b) =
     Some \<lparr>raw_dict = ZSTD_TrainDictionary c
             (concat (map (\<lambda>s. take (unat (min (zstd_max_train_bytes (cf_options b) -
                                                    of_nat (length s))
                                                 (of_nat (length s) :: u64))) s)
                          (sample_records b)))
             (map (\<lambda>s. min (zstd_max_train_bytes (cf_options b) - of_nat (length s))
                             (of_nat (length s)))
                  (sample_records b))
             (max_dict_bytes (cf_options b)),
           dict_type = blob_file_compression (cf_options b),
           dict_level = level (cf_options b)\<rparr> \<and>
   (\<forall>s\<in>set (sample_records b).
      zstd_max_train_bytes (cf_options b) < of_nat (length s) \<longrightarrow>
        min (zstd_max_train_bytes (cf_options b) - of_nat (length s)) (of_nat (length s) :: u64) =
          of_nat (length s))"
proof -
  have u: "unat (of_nat (length s) :: u64) \<le> 2 ^ 63" if "s \<in> set (sample_records b)" for s
  proof -
    have "length s \<le> 2 ^ 63" using assms that by blast
    then show ?thesis by (simp add: unat_of_nat)
  qed
  have e: "copy_len t (of_nat (length s)) = min (t - of_nat (length s)) (of_nat (length s))"
    if "s \<in> set (sample_records b)" for s t
    using copy_len_is_cap [OF u [OF that]] .
  have m1: "map (\<lambda>s. copy_len (zstd_max_train_bytes (cf_options b)) (of_nat (length s)))
               (sample_records b) =
            map (\<lambda>s. min (zstd_max_train_bytes (cf_options b) - of_nat (length s))
                          (of_nat (length s))) (sample_records b)"
    using e by (intro map_cong) simp_all
  have m2: "map (\<lambda>s. take (unat (copy_len (zstd_max_train_bytes (cf_options b))
                                      (of_nat (length s)))) s) (sample_records b) =
            map (\<lambda>s. take (unat (min (zstd_max_train_bytes (cf_options b) - of_nat (length s))
                                     (of_nat (length s) :: u64))) s) (sample_records b)"
    using e by (intro map_cong) simp_all
  have d: "compression_dict (EnterUnbuffered c b) =
             Some (trained_dict c (cf_options b) (sample_records b))"
    using EnterUnbuffered_frame [of c b] by simp
  have under: "min (t - of_nat (length s)) (of_nat (length s) :: u64) = of_nat (length s)"
    if "s \<in> set (sample_records b)" "t < of_nat (length s)" for s t
    using copy_len_underflow [OF that(2) u [OF that(1)]] e [OF that(1), of t] by simp
  show ?thesis
    unfolding d trained_dict_eq m1 m2 using under by blast
qed

theorem EnterUnbuffered_sample_cap_witness:
  "sample_records (dict_builder\<lparr>sample_records := [''abcdef'', ''gh'']\<rparr>) =
     [''abcdef'', ''gh''] \<and>
   length ''abcdef'' \<le> (2 :: nat) ^ 63 \<and> length ''gh'' \<le> (2 :: nat) ^ 63 \<and>
   zstd_max_train_bytes (cf_options (dict_builder\<lparr>sample_records := [''abcdef'', ''gh'']\<rparr>)) = 0 \<and>
   compression_dict (EnterUnbuffered toy_codec
       (dict_builder\<lparr>sample_records := [''abcdef'', ''gh'']\<rparr>)) =
     Some \<lparr>raw_dict = ZSTD_TrainDictionary toy_codec ''abcdefgh'' [6, 2] 3,
           dict_type = 7, dict_level = 3\<rparr> \<and>
   min (0 - 6) (6 :: u64) = 6"
proof -
  have h: "\<forall>s\<in>set (sample_records (dict_builder\<lparr>sample_records := [''abcdef'', ''gh'']\<rparr>)).
      length s \<le> 2 ^ 63"
    by simp
  show ?thesis
    using h EnterUnbuffered_sample_cap [OF h, of toy_codec]
    by (simp add: dict_builder_def builder_defs toy_options_def)
qed

subsection \<open>The key order assertions\<close>

text \<open>
  Claim C5, at a failing input. A buffered builder is given the key \<open>b\<close> and then the
  key \<open>a\<close>: both calls return, the records are buffered and no key is compared, since
  \<^verbatim>\<open>Add\<close> returns from its buffered branch before the assertions. An unbuffered builder
  given the same two records stops at the assertion.
\<close>

theorem Add_buffered_skips_key_check:
  "add_all toy_codec dict_builder h0 [rec_b, rec_a] =
     Inr [(dict_builder\<lparr>sample_records := [EncodeTo toy_codec rec_b], sample_str_len := 5\<rparr>, h0),
          (dict_builder\<lparr>sample_records := [EncodeTo toy_codec rec_b, EncodeTo toy_codec rec_a],
                        sample_str_len := 9\<rparr>, h0)] \<and>
   add_all toy_codec plain_builder h0 [rec_b, rec_a] = Inl AssertionFailed"
  by (simp add: dict_builder_def plain_builder_def builder_defs toy_defs rec_defs)

subsection \<open>The status of a builder after a failed write\<close>

text \<open>
  Claim C2, at a failing input. A builder with a dictionary buffers two records; the sink
  takes the file header and the header of the first record and refuses the body of the
  first record. The replay loop of \<^verbatim>\<open>FlushSampleRecords\<close> goes on to the second
  record without looking at the status, whose header append overwrites the error; every
  later write is made and \<^verbatim>\<open>Finish\<close> returns ok. In the file the frame of the second
  record follows the header of the first.
\<close>

theorem Finish_overwrites_error:
  "\<not> isl (build toy_codec (toy_options True 0) faulty_file h0 [rec_a, rec_b]) \<and>
   fst (projr (build toy_codec (toy_options True 0) faulty_file h0 [rec_a, rec_b])) = OK \<and>
   pending (file_writer (fst (snd (projr
     (build toy_codec (toy_options True 0) faulty_file h0 [rec_a, rec_b]))))) = [] \<and>
   take 13 (contents (file_writer (fst (snd (projr
     (build toy_codec (toy_options True 0) faulty_file h0 [rec_a, rec_b])))))) =
     EncodeHeader toy_codec 1 @
     RecordHeader toy_codec (CHR ''z'') (rev (EncodeTo toy_codec rec_a)) @
     frame_of toy_codec
       (Some (trained_dict toy_codec (toy_options True 0)
          [EncodeTo toy_codec rec_a, EncodeTo toy_codec rec_b]))
       (EncodeTo toy_codec rec_b)"
  by (simp add: builder_defs faulty_file_def toy_defs rec_defs frame_of_def trained_dict_def
      copy_len_def Let_def)

subsection \<open>The entry count\<close>

text \<open>
  Claim C9 says that \<^verbatim>\<open>NumEntries\<close> is at every point the number of records written.
  When the sink takes the header of a record and refuses its body, the record is counted
  and the file holds no more than the file header and that record header.
\<close>

theorem NumEntries_counts_unwritten_counterexample:
  "\<not> isl (Add toy_codec (NewBlobFileBuilder toy_codec (toy_options False 0) faulty_file) rec_a h0) \<and>
   NumEntries (fst (projr (Add toy_codec (NewBlobFileBuilder toy_codec (toy_options False 0) faulty_file) rec_a h0))) = 1 \<and>
   contents (file_writer (fst (projr (Add toy_codec (NewBlobFileBuilder toy_codec (toy_options False 0) faulty_file) rec_a h0)))) =
     EncodeHeader toy_codec 0 @ RecordHeader toy_codec (CHR ''n'') (EncodeTo toy_codec rec_a)"
  by (simp add: builder_defs faulty_file_def toy_defs rec_defs)

lemma WriteEncoderData_no_fault:
  assumes "pending (file_writer b) = []"
  shows "WriteEncoderData b =
     (b\<lparr>live_data_size := live_data_size b + GetEncodedSize (encoder b),
        status := OK,
        file_writer := (file_writer b)\<lparr>contents :=
           contents (file_writer b) @ GetHeader (encoder b) @ GetRecord (encoder b)\<rparr>,
        num_entries := num_entries b + 1\<rparr>,
      \<lparr>h_offset = GetFileSize (file_writer b), h_size = GetEncodedSize (encoder b)\<rparr>)"
  using assms by (simp add: WriteEncoderData_def ok_def Let_def)

lemma EncodeSlice_frame:
  "GetHeader (EncodeSlice c e s) @ GetRecord (EncodeSlice c e s) = frame_of c (enc_dict e) s"
  by (simp add: EncodeSlice_def frame_of_def split: prod.splits)

lemma replay_no_fault:
  assumes "pending (file_writer b) = []"
  shows "pending (file_writer (replay c ss b)) = [] \<and>
         contents (file_writer (replay c ss b)) =
           contents (file_writer b) @ concat (map (frame_of c (enc_dict (encoder b))) ss) \<and>
         num_entries (replay c ss b) = num_entries b + of_nat (length ss) \<and>
         status (replay c ss b) = (if ss = [] then status b else OK)"
  using assms
proof (induction ss arbitrary: b)
  case Nil
  then show ?case by simp
next
  case (Cons s ss)
  let ?b1 = "b\<lparr>encoder := EncodeSlice c (encoder b) s\<rparr>"
  have p: "pending (file_writer ?b1) = []" using Cons.prems by simp
  let ?b2 = "fst (WriteEncoderData ?b1)"
  have w: "pending (file_writer ?b2) = []"
    "contents (file_writer ?b2) = contents (file_writer b) @ frame_of c (enc_dict (encoder b)) s"
    "num_entries ?b2 = num_entries b + 1" "status ?b2 = OK"
    "enc_dict (encoder ?b2) = enc_dict (encoder b)"
    using Cons.prems by (simp_all add: WriteEncoderData_no_fault [OF p] EncodeSlice_frame)
  show ?case
    using Cons.IH [of ?b2] w by simp
qed


lemma EnterUnbuffered_no_fault:
  assumes "pending (file_writer b) = []"
  shows "pending (file_writer (EnterUnbuffered c b)) = [] \<and>
         contents (file_writer (EnterUnbuffered c b)) =
           contents (file_writer b) @
           concat (map (frame_of c (Some (trained_dict c (cf_options b) (sample_records b))))
                       (sample_records b)) \<and>
         num_entries (EnterUnbuffered c b) = num_entries b + of_nat (length (sample_records b)) \<and>
         status (EnterUnbuffered c b) = (if sample_records b = [] then status b else OK)"
proof -
  let ?cd = "trained_dict c (cf_options b) (sample_records b)"
  let ?b1 = "b\<lparr>compression_dict := Some ?cd,
                 encoder := SetCompressionDict (encoder b) ?cd,
                 builder_state := kUnbuffered\<rparr>"
  have e: "EnterUnbuffered c b =
             (replay c (sample_records b) ?b1)\<lparr>sample_records := [], sample_str_len := 0\<rparr>"
    by (simp add: EnterUnbuffered_def FlushSampleRecords_def trained_dict_def Let_def)
  have p: "pending (file_writer ?b1) = []" using assms by simp
  show ?thesis
    using replay_no_fault [OF p, of c "sample_records b"]
    by (simp add: e SetCompressionDict_def)
qed

lemma frames_snoc: "frames c d (rs @ [r]) = frames c d rs @ frame_of c d (EncodeTo c r)"
  by (simp add: frames_def)

lemma frames_map: "concat (map (frame_of c d) (map (EncodeTo c) rs)) = frames c d rs"
  by (simp add: frames_def comp_def)

lemma keys_accepted_Cons:
  assumes "keys_accepted b (r # rs)"
  shows "0 \<le> comparator (cf_options b) (key r) (key r)"
    and "0 \<le> comparator (cf_options b) (key r) (smallest_key b)"
    and "0 \<le> comparator (cf_options b) (key r) (largest_key b)"
    and "\<And>b'. cf_options b' = cf_options b \<Longrightarrow>
           smallest_key b' \<in> {smallest_key b, key r} \<Longrightarrow>
           largest_key b' \<in> {largest_key b, key r} \<Longrightarrow> keys_accepted b' rs"
  using assms by (auto simp: keys_accepted_def)

lemma Add_buffered_step:
  assumes inv: "builder_inv c opts done b" and st: "builder_state b = kBuffered"
  shows "\<exists>b'. Add c b r h = Inr (b', h) \<and> add_post c opts h done r b (b', h) \<and>
              smallest_key b' = smallest_key b \<and> largest_key b' = largest_key b \<and>
              cf_options b' = cf_options b"
proof -
  define b1 where "b1 = b\<lparr>sample_records := sample_records b @ [EncodeTo c r],
       sample_str_len := sample_str_len b + of_nat (length (EncodeTo c r))\<rparr>"
  have okb: "ok b" and o: "cf_options b = opts"
    using inv by (simp_all add: builder_inv_def ok_def)
  have sl0: "sample_str_len b = of_nat (sum_list (map (\<lambda>r. length (EncodeTo c r)) done))"
    using inv st by (simp add: builder_inv_def)
  have f1: "pending (file_writer b1) = []" "cf_options b1 = opts" "status b1 = OK"
    "contents (file_writer b1) = EncodeHeader c (header_flags opts)" "num_entries b1 = 0"
    "sample_records b1 = map (EncodeTo c) (done @ [r])" "DictionaryEnabled opts"
    "sample_str_len b1 = of_nat (sum_list (map (\<lambda>r. length (EncodeTo c r)) (done @ [r])))"
    "builder_state b1 = kBuffered" "compression_dict b1 = None"
    "enc_dict (encoder b1) = None"
    "smallest_key b1 = smallest_key b" "largest_key b1 = largest_key b"
    using inv st by (simp_all add: builder_inv_def b1_def)
  show ?thesis
  proof (cases "threshold_crossed c opts (done @ [r])")
    case True
    define bu where "bu = EnterUnbuffered c b1"
    define cd where "cd = trained_dict c opts (map (EncodeTo c) (done @ [r]))"
    have a: "Add c b r h = Inr (bu, h)"
      using okb st o True sl0
      by (simp add: Add_def Let_def threshold_crossed_def b1_def bu_def)
    have u1: "pending (file_writer bu) = []"
      "contents (file_writer bu) = EncodeHeader c (header_flags opts) @ frames c (Some cd) (done @ [r])"
      "num_entries bu = of_nat (length (done @ [r]))" "status bu = OK"
      using EnterUnbuffered_no_fault [OF f1(1), of c]
      unfolding bu_def [symmetric] f1 cd_def [symmetric] frames_map
      by simp_all
    have u2: "cf_options bu = opts" "builder_state bu = kUnbuffered"
      "enc_dict (encoder bu) = Some cd" "sample_records bu = []" "sample_str_len bu = 0"
      "compression_dict bu = Some cd" "smallest_key bu = smallest_key b"
      "largest_key bu = largest_key b"
      using EnterUnbuffered_frame [of c b1]
      unfolding bu_def [symmetric] f1 cd_def [symmetric]
      by simp_all
    have "builder_inv c opts (done @ [r]) bu"
      unfolding builder_inv_def u1 u2 using f1(7) by simp
    then have "add_post c opts h done r b (bu, h)"
      using True st u2 by (simp add: add_post_def cd_def)
    then show ?thesis using a u2 o by simp
  next
    case False
    then have a: "Add c b r h = Inr (b1, h)"
      using okb st o sl0
      by (auto simp: Add_def Let_def threshold_crossed_def b1_def)
    have "builder_inv c opts (done @ [r]) b1"
      using f1 by (simp add: builder_inv_def)
    then have "add_post c opts h done r b (b1, h)"
      using False st f1 by (simp add: add_post_def)
    then show ?thesis using a f1 o by simp
  qed
qed

lemma Add_unbuffered_unfold:
  assumes "ok b" and "builder_state b = kUnbuffered"
    and "WriteEncoderData (b\<lparr>encoder := EncodeRecord c (encoder b) r\<rparr>) = (b1, h1)"
    and "b2 = (if smallest_key b1 = [] then b1\<lparr>smallest_key := key r\<rparr> else b1)"
  shows "Add c b r h =
     (if \<not> 0 \<le> comparator (cf_options b2) (key r) (smallest_key b2) then Inl AssertionFailed
      else if \<not> 0 \<le> comparator (cf_options b2) (key r) (largest_key b2) then Inl AssertionFailed
      else Inr (b2\<lparr>largest_key := key r\<rparr>, h1))"
  using assms by (simp add: Add_def Let_def)

lemma Add_unbuffered_step:
  assumes inv: "builder_inv c opts done b" and st: "builder_state b = kUnbuffered"
    and k1: "0 \<le> comparator (cf_options b) (key r) (key r)"
    and k2: "0 \<le> comparator (cf_options b) (key r) (smallest_key b)"
    and k3: "0 \<le> comparator (cf_options b) (key r) (largest_key b)"
  shows "\<exists>b' h'. Add c b r h = Inr (b', h') \<and> add_post c opts h done r b (b', h') \<and>
              smallest_key b' \<in> {smallest_key b, key r} \<and>
              largest_key b' \<in> {largest_key b, key r} \<and> cf_options b' = cf_options b"
proof -
  define e where "e = EncodeRecord c (encoder b) r"
  have okb: "ok b" and p: "pending (file_writer (b\<lparr>encoder := e\<rparr>)) = []"
    and o: "cf_options b = opts" and d: "enc_dict (encoder b) = compression_dict b"
    using inv by (simp_all add: builder_inv_def ok_def)
  have fr: "GetHeader e @ GetRecord e = frame_of c (compression_dict b) (EncodeTo c r)"
    using EncodeSlice_frame [of c "encoder b" "EncodeTo c r"] d
    by (simp add: EncodeRecord_def e_def)
  have sz: "GetEncodedSize e = of_nat (length (frame_of c (compression_dict b) (EncodeTo c r)))"
    using fr [symmetric] by (simp add: GetEncodedSize_def)
  have ed: "enc_dict e = compression_dict b"
    using d by (simp add: e_def EncodeRecord_def)
  obtain b1 h1 where w: "WriteEncoderData (b\<lparr>encoder := e\<rparr>) = (b1, h1)"
    by (cases "WriteEncoderData (b\<lparr>encoder := e\<rparr>)")
  have b1: "b1 = b\<lparr>encoder := e,
        live_data_size := live_data_size b + GetEncodedSize e, status := OK,
        file_writer := (file_writer b)\<lparr>contents :=
           contents (file_writer b) @ GetHeader e @ GetRecord e\<rparr>,
        num_entries := num_entries b + 1\<rparr>"
    and h1: "h1 = \<lparr>h_offset = GetFileSize (file_writer b), h_size = GetEncodedSize e\<rparr>"
    using w WriteEncoderData_no_fault [OF p] by simp_all
  define b2 where "b2 = (if smallest_key b1 = [] then b1\<lparr>smallest_key := key r\<rparr> else b1)"
  have f2: "status b2 = OK" "pending (file_writer b2) = []" "cf_options b2 = opts"
    "enc_dict (encoder b2) = compression_dict b" "compression_dict b2 = compression_dict b"
    "builder_state b2 = kUnbuffered" "sample_records b2 = []" "sample_str_len b2 = 0"
    "contents (file_writer b2) =
       EncodeHeader c (header_flags opts) @ frames c (compression_dict b) (done @ [r])"
    "num_entries b2 = of_nat (length (done @ [r]))"
    "(compression_dict b \<noteq> None) = DictionaryEnabled opts"
    "largest_key b2 = largest_key b"
    using inv st fr ed by (simp_all add: builder_inv_def b2_def b1 frames_snoc)
  have sk: "smallest_key b2 \<in> {smallest_key b, key r}"
    by (simp add: b2_def b1)
  have a: "Add c b r h = Inr (b2\<lparr>largest_key := key r\<rparr>, h1)"
    using Add_unbuffered_unfold [OF okb st w [unfolded e_def] b2_def, of h] sk k1 k2 k3 f2(3,12) o
    by auto
  have i: "builder_inv c opts (done @ [r]) (b2\<lparr>largest_key := key r\<rparr>)"
    unfolding builder_inv_def using f2 by simp
  have "add_post c opts h done r b (b2\<lparr>largest_key := key r\<rparr>, h1)"
    using i st sz f2 by (simp add: add_post_def h1)
  then show ?thesis using a sk f2 o by auto
qed

lemma Add_step:
  assumes inv: "builder_inv c opts done b" and keys: "keys_accepted b (r # rs)"
  shows "\<exists>b' h'. Add c b r h = Inr (b', h') \<and> add_post c opts h done r b (b', h') \<and>
              keys_accepted b' rs"
proof (cases "builder_state b")
  case kBuffered
  from Add_buffered_step [OF inv kBuffered, of r h]
  obtain b' where b': "Add c b r h = Inr (b', h)" "add_post c opts h done r b (b', h)"
    "smallest_key b' = smallest_key b" "largest_key b' = largest_key b"
    "cf_options b' = cf_options b"
    by blast
  have "keys_accepted b' rs"
    using keys_accepted_Cons(4) [OF keys, of b'] b' by simp
  then show ?thesis using b' by blast
next
  case kUnbuffered
  from Add_unbuffered_step [OF inv kUnbuffered keys_accepted_Cons(1,2,3) [OF keys], of h]
  obtain b' h' where b': "Add c b r h = Inr (b', h')" "add_post c opts h done r b (b', h')"
    "smallest_key b' \<in> {smallest_key b, key r}" "largest_key b' \<in> {largest_key b, key r}"
    "cf_options b' = cf_options b"
    by blast
  have "keys_accepted b' rs"
    using keys_accepted_Cons(4) [OF keys, of b'] b' by simp
  then show ?thesis using b' by blast
qed


lemma add_all_trace:
  assumes "builder_inv c opts done b" and "keys_accepted b rs"
  shows "\<exists>tr. add_all c b h rs = Inr tr \<and> length tr = length rs \<and>
           (\<forall>i<length rs. add_post c opts h (done @ take i rs) (rs ! i)
                             ((b # map fst tr) ! i) (tr ! i))"
  using assms
proof (induction rs arbitrary: b "done")
  case Nil
  then show ?case by simp
next
  case (Cons r rs)
  from Add_step [OF Cons.prems, of h]
  obtain b' h' where s: "Add c b r h = Inr (b', h')" "add_post c opts h done r b (b', h')"
    "keys_accepted b' rs"
    by blast
  have "builder_inv c opts (done @ [r]) b'"
    using s(2) by (simp add: add_post_def)
  from Cons.IH [OF this s(3)]
  obtain tr where t: "add_all c b' h rs = Inr tr" "length tr = length rs"
    "\<forall>i<length rs. add_post c opts h ((done @ [r]) @ take i rs) (rs ! i)
                       ((b' # map fst tr) ! i) (tr ! i)"
    by blast
  have "\<forall>i<length (r # rs). add_post c opts h (done @ take i (r # rs)) ((r # rs) ! i)
           ((b # map fst ((b', h') # tr)) ! i) (((b', h') # tr) ! i)"
  proof (intro allI impI)
    fix i
    assume "i < length (r # rs)"
    then show "add_post c opts h (done @ take i (r # rs)) ((r # rs) ! i)
           ((b # map fst ((b', h') # tr)) ! i) (((b', h') # tr) ! i)"
      using s(2) t(3) by (cases i) simp_all
  qed
  then show ?case using s(1) t(1,2) by simp
qed

lemma add_post_states:
  assumes "\<forall>i<n. add_post c opts h (ds i) (rs ! i) (bs ! i) (bs ! Suc i, hs i)"
    and "i \<le> j" and "j \<le> n" and "builder_state (bs ! i) = kUnbuffered"
  shows "builder_state (bs ! j) = kUnbuffered \<and> compression_dict (bs ! j) = compression_dict (bs ! i)"
  using assms(2,3)
proof (induction j rule: dec_induct)
  case base
  then show ?case using assms(4) by simp
next
  case (step k)
  then have "add_post c opts h (ds k) (rs ! k) (bs ! k) (bs ! Suc k, hs k)"
    and "builder_state (bs ! k) = kUnbuffered"
    and "compression_dict (bs ! k) = compression_dict (bs ! i)"
    using assms(1) by simp_all
  then show ?case by (simp add: add_post_def)
qed

lemma block_trailer_length [simp]: "length (block_trailer c block) = 5"
  by (simp add: block_trailer_def EncodeFixed32_def Let_def)

lemma WriteRawBlock_no_fault:
  assumes "pending (file_writer b) = []"
  shows "WriteRawBlock c b block =
     (b\<lparr>status := OK,
        file_writer := (file_writer b)\<lparr>contents :=
           contents (file_writer b) @ block @ block_trailer c block\<rparr>\<rparr>,
      \<lparr>b_offset = GetFileSize (file_writer b), b_size = of_nat (length block)\<rparr>)"
  using assms by (simp add: WriteRawBlock_def ok_def Let_def)

lemma write_footer_no_fault:
  assumes "pending (file_writer b) = []"
  shows "write_footer c b footer =
     (OK, b\<lparr>status := OK,
            file_writer := (file_writer b)\<lparr>contents :=
              contents (file_writer b) @ EncodeFooter c footer\<rparr>\<rparr>)"
  using assms by (simp add: write_footer_def ok_def Flush_def Let_def)

lemma EnterUnbuffered_inv:
  assumes inv: "builder_inv c opts done b" and st: "builder_state b = kBuffered"
  shows "builder_inv c opts done (EnterUnbuffered c b) \<and>
         builder_state (EnterUnbuffered c b) = kUnbuffered \<and>
         compression_dict (EnterUnbuffered c b) =
           Some (trained_dict c opts (map (EncodeTo c) done))"
proof -
  define bu where "bu = EnterUnbuffered c b"
  define cd where "cd = trained_dict c opts (map (EncodeTo c) done)"
  have f1: "pending (file_writer b) = []" "cf_options b = opts" "status b = OK"
    "contents (file_writer b) = EncodeHeader c (header_flags opts)" "num_entries b = 0"
    "sample_records b = map (EncodeTo c) done" "DictionaryEnabled opts"
    using inv st by (simp_all add: builder_inv_def)
  have u1: "pending (file_writer bu) = []"
    "contents (file_writer bu) = EncodeHeader c (header_flags opts) @ frames c (Some cd) done"
    "num_entries bu = of_nat (length done)" "status bu = OK"
    using EnterUnbuffered_no_fault [OF f1(1), of c]
    unfolding bu_def [symmetric] f1 cd_def [symmetric] frames_map
    by simp_all
  have u2: "cf_options bu = opts" "builder_state bu = kUnbuffered"
    "enc_dict (encoder bu) = Some cd" "sample_records bu = []" "sample_str_len bu = 0"
    "compression_dict bu = Some cd"
    using EnterUnbuffered_frame [of c b]
    unfolding bu_def [symmetric] f1 cd_def [symmetric]
    by simp_all
  have "builder_inv c opts done bu"
    using f1(7) by (simp add: builder_inv_def u1 u2)
  then show ?thesis using u2 by (simp add: bu_def cd_def)
qed

lemma Finish_unbuffered_no_fault:
  assumes inv: "builder_inv c opts done b" and st: "builder_state b = kUnbuffered"
  shows "\<exists>bf. Finish c b = Inr (OK, bf) \<and> status bf = OK \<and> builder_state bf = kUnbuffered \<and>
           sample_records bf = [] \<and> sample_str_len bf = 0 \<and> pending (file_writer bf) = [] \<and>
           num_entries bf = of_nat (length done) \<and> cf_options bf = opts \<and>
           compression_dict bf = compression_dict b \<and>
           contents (file_writer bf) = file_image c opts (compression_dict b) done"
proof -
  have f: "status b = OK" "pending (file_writer b) = []" "cf_options b = opts"
    "(compression_dict b \<noteq> None) = DictionaryEnabled opts" "sample_records b = []"
    "sample_str_len b = 0" "num_entries b = of_nat (length done)"
    "contents (file_writer b) =
       EncodeHeader c (header_flags opts) @ frames c (compression_dict b) done"
    using inv st by (simp_all add: builder_inv_def)
  show ?thesis
  proof (cases "compression_dict b")
    case None
    then have "\<not> DictionaryEnabled opts" using f(4) by simp
    then have "Finish c b = Inr (write_footer c b empty_footer)"
      using f(1,3) st by (simp add: Finish_def ok_def)
    then show ?thesis
      using f st None
      by (simp add: write_footer_no_fault [OF f(2)] file_image_def final_footer_def
          meta_blocks_def)
  next
    case (Some cd)
    then have en: "DictionaryEnabled opts" using f(4) by simp
    obtain b2 dh where w1: "WriteRawBlock c b (raw_dict cd) = (b2, dh)"
      by (cases "WriteRawBlock c b (raw_dict cd)")
    have b2: "b2 = b\<lparr>status := OK,
        file_writer := (file_writer b)\<lparr>contents :=
           contents (file_writer b) @ raw_dict cd @ block_trailer c (raw_dict cd)\<rparr>\<rparr>"
      and dh: "dh = dict_block_handle c opts cd done"
      using w1 [unfolded WriteRawBlock_no_fault [OF f(2)]] f(8) Some
      by (simp_all add: dict_block_handle_def GetFileSize_def records_end_def)
    have p2: "pending (file_writer b2) = []" using f(2) by (simp add: b2)
    obtain b3 mh where w2: "WriteRawBlock c b2 (meta_block c opts cd done) = (b3, mh)"
      by (cases "WriteRawBlock c b2 (meta_block c opts cd done)")
    have b3: "b3 = b2\<lparr>status := OK,
        file_writer := (file_writer b2)\<lparr>contents :=
           contents (file_writer b2) @ meta_block c opts cd done @
           block_trailer c (meta_block c opts cd done)\<rparr>\<rparr>"
      and mh: "mh = meta_block_handle c opts cd done"
      using w2 [unfolded WriteRawBlock_no_fault [OF p2]] f(8) Some
      by (auto simp: meta_block_handle_def GetFileSize_def records_end_def b2 add.assoc)
    have p3: "pending (file_writer b3) = []" using p2 by (simp add: b3)
    have "Finish c b = Inr (write_footer c b3 (final_footer c opts (Some cd) done))"
      using f(1,3) st en Some w1 w2
      by (simp add: Finish_def ok_def WriteCompressionDictBlock_def b2 meta_block_def dh mh
          final_footer_def empty_footer_def)
    then have "Finish c b = Inr (OK, b3\<lparr>status := OK,
            file_writer := (file_writer b3)\<lparr>contents :=
              contents (file_writer b3) @
              EncodeFooter c (final_footer c opts (Some cd) done)\<rparr>\<rparr>)"
      by (simp only: write_footer_no_fault [OF p3])
    then show ?thesis
      using f st Some
      by (simp add: file_image_def meta_blocks_def b3 b2)
  qed
qed

lemma Finish_no_fault:
  assumes inv: "builder_inv c opts done b"
  shows "\<exists>bf. Finish c b = Inr (OK, bf) \<and> status bf = OK \<and> builder_state bf = kUnbuffered \<and>
           sample_records bf = [] \<and> sample_str_len bf = 0 \<and> pending (file_writer bf) = [] \<and>
           num_entries bf = of_nat (length done) \<and> cf_options bf = opts \<and>
           compression_dict bf =
             (if builder_state b = kBuffered
              then Some (trained_dict c opts (map (EncodeTo c) done))
              else compression_dict b) \<and>
           (compression_dict bf \<noteq> None) = DictionaryEnabled opts \<and>
           contents (file_writer bf) = file_image c opts (compression_dict bf) done"
proof (cases "builder_state b")
  case kBuffered
  define bu where "bu = EnterUnbuffered c b"
  have i': "builder_inv c opts done bu" and s': "builder_state bu = kUnbuffered"
    and d': "compression_dict bu = Some (trained_dict c opts (map (EncodeTo c) done))"
    using EnterUnbuffered_inv [OF inv kBuffered] by (simp_all add: bu_def)
  have "ok b" using inv by (simp add: builder_inv_def ok_def)
  moreover have "ok bu" using i' by (simp add: builder_inv_def ok_def)
  ultimately have "Finish c b = Finish c bu"
    using kBuffered s' by (simp add: Finish_def bu_def)
  moreover have "(compression_dict bu \<noteq> None) = DictionaryEnabled opts"
    using i' s' by (simp add: builder_inv_def)
  ultimately show ?thesis
    using Finish_unbuffered_no_fault [OF i' s'] d' kBuffered by auto
next
  case kUnbuffered
  moreover have "(compression_dict b \<noteq> None) = DictionaryEnabled opts"
    using inv kUnbuffered by (simp add: builder_inv_def)
  ultimately show ?thesis
    using Finish_unbuffered_no_fault [OF inv kUnbuffered] by auto
qed


lemma new_builder_inv:
  "builder_inv c opts [] (NewBlobFileBuilder c opts new_file) \<and>
   builder_state (NewBlobFileBuilder c opts new_file) =
     (if DictionaryEnabled opts then kBuffered else kUnbuffered) \<and>
   cf_options (NewBlobFileBuilder c opts new_file) = opts \<and>
   smallest_key (NewBlobFileBuilder c opts new_file) = [] \<and>
   largest_key (NewBlobFileBuilder c opts new_file) = []"
  by (simp add: builder_inv_def NewBlobFileBuilder_def new_file_def frames_def)

lemma new_builder_keys:
  assumes "sorted_wrt (\<lambda>x y. 0 \<le> comparator opts (key y) (key x)) rs"
    and "\<forall>r\<in>set rs. 0 \<le> comparator opts (key r) (key r) \<and> 0 \<le> comparator opts (key r) []"
  shows "keys_accepted (NewBlobFileBuilder c opts new_file) rs"
  using assms new_builder_inv [of c opts] by (simp add: keys_accepted_def)

lemma trace_inv:
  assumes "\<forall>i<length rs. add_post c opts h (done @ take i rs) (rs ! i)
                             ((b # map fst tr) ! i) (tr ! i)"
    and "length tr = length rs" and "i < length rs"
  shows "builder_inv c opts (done @ take (Suc i) rs) (fst (tr ! i))"
  using assms by (auto simp: add_post_def take_Suc_conv_app_nth)

lemma trace_final_inv:
  assumes "builder_inv c opts done b"
    and "\<forall>i<length rs. add_post c opts h (done @ take i rs) (rs ! i)
                             ((b # map fst tr) ! i) (tr ! i)"
    and "length tr = length rs"
  shows "builder_inv c opts (done @ rs) (last_builder b tr)"
proof (cases "rs = []")
  case True
  then show ?thesis using assms by (simp add: last_builder_def)
next
  case False
  then have n: "length rs - 1 < length rs" and t: "tr \<noteq> []" using assms(3) by auto
  have "last_builder b tr = fst (tr ! (length rs - 1))"
    using t assms(3) by (simp add: last_builder_def last_conv_nth)
  then show ?thesis
    using trace_inv [OF assms(2,3) n] False by simp
qed

text \<open>The whole run on a new file, without faults.\<close>

lemma build_no_fault:
  assumes "sorted_wrt (\<lambda>x y. 0 \<le> comparator opts (key y) (key x)) rs"
    and "\<forall>r\<in>set rs. 0 \<le> comparator opts (key r) (key r) \<and> 0 \<le> comparator opts (key r) []"
  shows "\<exists>bf tr. build c opts new_file h rs = Inr (OK, bf, tr) \<and> length tr = length rs \<and>
     (\<forall>i<length rs. add_post c opts h (take i rs) (rs ! i)
          ((NewBlobFileBuilder c opts new_file # map fst tr) ! i) (tr ! i)) \<and>
     builder_inv c opts rs (last_builder (NewBlobFileBuilder c opts new_file) tr) \<and>
     status bf = OK \<and> builder_state bf = kUnbuffered \<and> sample_records bf = [] \<and>
     sample_str_len bf = 0 \<and> num_entries bf = of_nat (length rs) \<and>
     compression_dict bf =
       (if builder_state (last_builder (NewBlobFileBuilder c opts new_file) tr) = kBuffered
        then Some (trained_dict c opts (map (EncodeTo c) rs))
        else compression_dict (last_builder (NewBlobFileBuilder c opts new_file) tr)) \<and>
     (compression_dict bf \<noteq> None) = DictionaryEnabled opts \<and>
     contents (file_writer bf) = file_image c opts (compression_dict bf) rs"
proof -
  define b0 where "b0 = NewBlobFileBuilder c opts new_file"
  have i0: "builder_inv c opts [] b0"
    using new_builder_inv [of c opts] by (simp add: b0_def)
  have k0: "keys_accepted b0 rs"
    using new_builder_keys [OF assms] by (simp add: b0_def)
  from add_all_trace [OF i0 k0, of h]
  obtain tr where tr: "add_all c b0 h rs = Inr tr" "length tr = length rs"
    "\<forall>i<length rs. add_post c opts h ([] @ take i rs) (rs ! i) ((b0 # map fst tr) ! i) (tr ! i)"
    by blast
  have fi: "builder_inv c opts rs (last_builder b0 tr)"
    using trace_final_inv [OF i0 tr(3,2)] by simp
  from Finish_no_fault [OF fi]
  obtain bf where bf: "Finish c (last_builder b0 tr) = Inr (OK, bf)" "status bf = OK"
    "builder_state bf = kUnbuffered" "sample_records bf = []" "sample_str_len bf = 0"
    "num_entries bf = of_nat (length rs)"
    "compression_dict bf =
       (if builder_state (last_builder b0 tr) = kBuffered
        then Some (trained_dict c opts (map (EncodeTo c) rs))
        else compression_dict (last_builder b0 tr))"
    "(compression_dict bf \<noteq> None) = DictionaryEnabled opts"
    "contents (file_writer bf) = file_image c opts (compression_dict bf) rs"
    by blast
  have "build c opts new_file h rs = Inr (OK, bf, tr)"
    using tr(1) bf(1) by (simp add: build_def b0_def)
  then show ?thesis
    using tr(2,3) fi bf unfolding b0_def by auto
qed

text \<open>The state after each \<^verbatim>\<open>Add\<close>: buffered until the threshold is first crossed.\<close>

lemma trace_states:
  assumes "\<forall>i<n. add_post c opts h (take i rs) (rs ! i) (bs ! i) (bs ! Suc i, hs i)"
    and "builder_state (bs ! 0) = kBuffered" and "i < n" and "n \<le> length rs"
  shows "builder_state (bs ! Suc i) =
           (if \<exists>j\<le>i. threshold_crossed c opts (take (Suc j) rs) then kUnbuffered else kBuffered)"
  using assms(3)
proof (induction i)
  case 0
  then have "add_post c opts h (take 0 rs) (rs ! 0) (bs ! 0) (bs ! Suc 0, hs 0)"
    using assms(1) by blast
  moreover have "0 < length rs" using 0 assms(4) by linarith
  then have "take (Suc 0) rs = [rs ! 0]"
    using take_Suc_conv_app_nth [of 0 rs] by simp
  ultimately show ?case using assms(2) by (simp add: add_post_def split: if_splits)
next
  case (Suc i)
  then have ap: "add_post c opts h (take (Suc i) rs) (rs ! Suc i) (bs ! Suc i)
                   (bs ! Suc (Suc i), hs (Suc i))"
    using assms(1) by blast
  have ih: "builder_state (bs ! Suc i) =
           (if \<exists>j\<le>i. threshold_crossed c opts (take (Suc j) rs) then kUnbuffered else kBuffered)"
    using Suc by simp
  have "Suc i < length rs" using Suc.prems assms(4) by linarith
  then have tk: "take (Suc i) rs @ [rs ! Suc i] = take (Suc (Suc i)) rs"
    using take_Suc_conv_app_nth [of "Suc i" rs] by simp
  show ?case
  proof (cases "\<exists>j\<le>i. threshold_crossed c opts (take (Suc j) rs)")
    case True
    then have "\<exists>j\<le>Suc i. threshold_crossed c opts (take (Suc j) rs)"
      using le_SucI by blast
    then show ?thesis using ap ih True by (simp add: add_post_def)
  next
    case False
    then have e: "(\<exists>j\<le>Suc i. threshold_crossed c opts (take (Suc j) rs)) =
               threshold_crossed c opts (take (Suc (Suc i)) rs)"
      using le_Suc_eq by auto
    have buf: "builder_state (bs ! Suc i) = kBuffered" using ih False by simp
    show ?thesis
      using ap buf by (simp only: e) (simp add: add_post_def tk split: if_splits)
  qed
qed

lemma trace_dict:
  assumes "\<forall>i<n. add_post c opts h (take i rs) (rs ! i) (bs ! i) (bs ! Suc i, hs i)"
    and "builder_state (bs ! 0) = kBuffered" and "j \<le> n" and "n \<le> length rs"
    and "builder_state (bs ! j) = kUnbuffered"
  shows "\<exists>m\<le>j. compression_dict (bs ! j) = Some (trained_dict c opts (map (EncodeTo c) (take m rs)))"
  using assms(3,5)
proof (induction j)
  case 0
  then show ?case using assms(2) by simp
next
  case (Suc k)
  then have ap: "add_post c opts h (take k rs) (rs ! k) (bs ! k) (bs ! Suc k, hs k)"
    using assms(1) by simp
  have "k < length rs" using Suc.prems assms(4) by linarith
  then have tk: "take k rs @ [rs ! k] = take (Suc k) rs"
    using take_Suc_conv_app_nth [of k rs] by simp
  show ?case
  proof (cases "builder_state (bs ! k)")
    case kBuffered
    then have "compression_dict (bs ! Suc k) =
                 Some (trained_dict c opts (map (EncodeTo c) (take (Suc k) rs)))"
      using ap Suc.prems(2) by (simp add: add_post_def tk split: if_splits)
    then show ?thesis by blast
  next
    case kUnbuffered
    then obtain m where "m \<le> k"
      "compression_dict (bs ! k) = Some (trained_dict c opts (map (EncodeTo c) (take m rs)))"
      using Suc by auto
    moreover have "compression_dict (bs ! Suc k) = compression_dict (bs ! k)"
      using ap kUnbuffered by (simp add: add_post_def)
    ultimately show ?thesis using le_SucI by metis
  qed
qed

lemma last_builder_nth: "last_builder b tr = (b # map fst tr) ! length tr"
proof (cases "tr = []")
  case True
  then show ?thesis by (simp add: last_builder_def)
next
  case False
  have "(b # map fst tr) ! length tr = last (b # map fst tr)"
    using last_conv_nth [of "b # map fst tr"] by simp
  then show ?thesis using False by (simp add: last_builder_def last_map)
qed

text \<open>The facts of a trace, in the shape the lemmas above take them.\<close>

lemma trace_shape:
  assumes "\<forall>i<length rs. add_post c opts h (take i rs) (rs ! i) ((b0 # map fst tr) ! i) (tr ! i)"
    and "length tr = length rs"
  shows "\<forall>i<length rs. add_post c opts h (take i rs) (rs ! i) ((b0 # map fst tr) ! i)
            ((b0 # map fst tr) ! Suc i, snd (tr ! i))"
  using assms by simp

subsection \<open>The one transition of a buffered builder\<close>

text \<open>
  Claim C4. A builder with a dictionary, on a new file that takes every write, is given
  records whose keys pass the assertions, and is finished. After each \<^verbatim>\<open>Add\<close> it is
  buffered as long as the threshold test has failed for every record so far, and
  unbuffered from the first record on for which the test succeeds: while buffered the file
  holds the header alone and the samples are the records added; once unbuffered the
  sample buffer is empty and the file holds the frame of every record added, once and in
  order, encoded with the dictionary that the finished builder has. After \<^verbatim>\<open>Finish\<close>
  the builder is unbuffered, whether or not the threshold was crossed, the sample buffer
  is empty, the dictionary was trained on the first \<open>m\<close> records for some \<open>m\<close>, and the file
  is the header, the frame of every record once and in order, the two blocks and the
  footer.
\<close>

theorem buffered_builder_transition:
  assumes "DictionaryEnabled opts"
    and "sorted_wrt (\<lambda>x y. 0 \<le> comparator opts (key y) (key x)) rs"
    and "\<forall>r\<in>set rs. 0 \<le> comparator opts (key r) (key r) \<and> 0 \<le> comparator opts (key r) []"
  shows "\<exists>bf tr. build c opts new_file h rs = Inr (OK, bf, tr) \<and> length tr = length rs \<and>
     (\<forall>i<length rs.
        builder_state (fst (tr ! i)) =
          (if \<exists>j\<le>i. threshold_crossed c opts (take (Suc j) rs) then kUnbuffered else kBuffered) \<and>
        (builder_state (fst (tr ! i)) = kBuffered \<longrightarrow>
           contents (file_writer (fst (tr ! i))) = EncodeHeader c (header_flags opts) \<and>
           sample_records (fst (tr ! i)) = map (EncodeTo c) (take (Suc i) rs)) \<and>
        (builder_state (fst (tr ! i)) = kUnbuffered \<longrightarrow>
           sample_records (fst (tr ! i)) = [] \<and> sample_str_len (fst (tr ! i)) = 0 \<and>
           contents (file_writer (fst (tr ! i))) =
             EncodeHeader c (header_flags opts) @ frames c (compression_dict bf) (take (Suc i) rs))) \<and>
     builder_state bf = kUnbuffered \<and> sample_records bf = [] \<and> sample_str_len bf = 0 \<and>
     (\<exists>m\<le>length rs. compression_dict bf =
                        Some (trained_dict c opts (map (EncodeTo c) (take m rs)))) \<and>
     contents (file_writer bf) =
       EncodeHeader c (header_flags opts) @ frames c (compression_dict bf) rs @
       meta_blocks c opts (compression_dict bf) rs @
       EncodeFooter c (final_footer c opts (compression_dict bf) rs)"
proof -
  define b0 where "b0 = NewBlobFileBuilder c opts new_file"
  from build_no_fault [OF assms(2,3), of c h]
  obtain bf tr where r: "build c opts new_file h rs = Inr (OK, bf, tr)" "length tr = length rs"
    "\<forall>i<length rs. add_post c opts h (take i rs) (rs ! i) ((b0 # map fst tr) ! i) (tr ! i)"
    "builder_inv c opts rs (last_builder b0 tr)"
    "builder_state bf = kUnbuffered" "sample_records bf = []" "sample_str_len bf = 0"
    "compression_dict bf =
       (if builder_state (last_builder b0 tr) = kBuffered
        then Some (trained_dict c opts (map (EncodeTo c) rs))
        else compression_dict (last_builder b0 tr))"
    "contents (file_writer bf) = file_image c opts (compression_dict bf) rs"
    unfolding b0_def by blast
  define bs where "bs = b0 # map fst tr"
  have sh: "\<forall>i<length rs. add_post c opts h (take i rs) (rs ! i) (bs ! i) (bs ! Suc i, snd (tr ! i))"
    using trace_shape [OF r(3,2)] by (simp add: bs_def)
  have s0: "builder_state (bs ! 0) = kBuffered"
    using new_builder_inv [of c opts] assms(1) by (simp add: bs_def b0_def)
  have lastb: "last_builder b0 tr = bs ! length rs"
    using r(2) last_builder_nth [of b0 tr] by (simp add: bs_def)
  have dict_final: "compression_dict (bs ! j) = compression_dict bf"
    if "j \<le> length rs" "builder_state (bs ! j) = kUnbuffered" for j
    using add_post_states [OF sh that(1) order_refl that(2)] r(8) lastb by simp
  have pt: "builder_state (fst (tr ! i)) =
          (if \<exists>j\<le>i. threshold_crossed c opts (take (Suc j) rs) then kUnbuffered else kBuffered) \<and>
        (builder_state (fst (tr ! i)) = kBuffered \<longrightarrow>
           contents (file_writer (fst (tr ! i))) = EncodeHeader c (header_flags opts) \<and>
           sample_records (fst (tr ! i)) = map (EncodeTo c) (take (Suc i) rs)) \<and>
        (builder_state (fst (tr ! i)) = kUnbuffered \<longrightarrow>
           sample_records (fst (tr ! i)) = [] \<and> sample_str_len (fst (tr ! i)) = 0 \<and>
           contents (file_writer (fst (tr ! i))) =
             EncodeHeader c (header_flags opts) @ frames c (compression_dict bf) (take (Suc i) rs))"
    if i: "i < length rs" for i
  proof -
    have e: "fst (tr ! i) = bs ! Suc i" using i r(2) by (simp add: bs_def)
    have inv: "builder_inv c opts (take (Suc i) rs) (bs ! Suc i)"
      using trace_inv [of rs c opts h "[]" b0 tr i] r(2,3) i e by simp
    have st: "builder_state (bs ! Suc i) =
          (if \<exists>j\<le>i. threshold_crossed c opts (take (Suc j) rs) then kUnbuffered else kBuffered)"
      using trace_states [OF sh s0 i order_refl] .
    have d: "builder_state (bs ! Suc i) = kUnbuffered \<Longrightarrow>
             compression_dict (bs ! Suc i) = compression_dict bf"
      using dict_final [of "Suc i"] i by simp
    show ?thesis
    proof (cases "builder_state (bs ! Suc i)")
      case kBuffered
      then have "contents (file_writer (bs ! Suc i)) = EncodeHeader c (header_flags opts)"
        "sample_records (bs ! Suc i) = map (EncodeTo c) (take (Suc i) rs)"
        using inv by (simp_all add: builder_inv_def)
      then show ?thesis unfolding e using st kBuffered by simp
    next
      case kUnbuffered
      then have "sample_records (bs ! Suc i) = []" "sample_str_len (bs ! Suc i) = 0"
        "contents (file_writer (bs ! Suc i)) =
           EncodeHeader c (header_flags opts) @
           frames c (compression_dict (bs ! Suc i)) (take (Suc i) rs)"
        using inv by (simp_all add: builder_inv_def)
      then show ?thesis unfolding e using st kUnbuffered d by simp
    qed
  qed
  have m: "\<exists>m\<le>length rs. compression_dict bf =
                        Some (trained_dict c opts (map (EncodeTo c) (take m rs)))"
  proof (cases "builder_state (last_builder b0 tr)")
    case kBuffered
    then show ?thesis using r(8) by auto
  next
    case kUnbuffered
    then show ?thesis
      using trace_dict [OF sh s0 order_refl order_refl] r(8) lastb by simp
  qed
  show ?thesis
    using r(1,2,5,6,7,9) pt m by (auto simp: file_image_def)
qed


lemma toy_keys:
  "sorted_wrt (\<lambda>x y. 0 \<le> comparator (toy_options dict train) (key y) (key x)) [rec_a, rec_b, rec_c]"
  "\<forall>r\<in>set [rec_a, rec_b, rec_c].
      0 \<le> comparator (toy_options dict train) (key r) (key r) \<and>
      0 \<le> comparator (toy_options dict train) (key r) []"
  by (simp_all add: toy_options_def rec_defs)

theorem buffered_builder_transition_witness:
  "DictionaryEnabled (toy_options True 5) \<and>
   (\<exists>bf tr. build toy_codec (toy_options True 5) new_file h0 [rec_a, rec_b, rec_c] = Inr (OK, bf, tr) \<and>
      length tr = 3 \<and> builder_state bf = kUnbuffered \<and> sample_records bf = [] \<and>
      sample_str_len bf = 0 \<and>
      contents (file_writer bf) =
        EncodeHeader toy_codec (header_flags (toy_options True 5)) @
        frames toy_codec (compression_dict bf) [rec_a, rec_b, rec_c] @
        meta_blocks toy_codec (toy_options True 5) (compression_dict bf) [rec_a, rec_b, rec_c] @
        EncodeFooter toy_codec
          (final_footer toy_codec (toy_options True 5) (compression_dict bf) [rec_a, rec_b, rec_c]))"
proof -
  have d: "DictionaryEnabled (toy_options True 5)" by (simp add: toy_options_def)
  show ?thesis
    using d buffered_builder_transition [OF d toy_keys, of toy_codec h0] by auto
qed

subsection \<open>The entry count without faults\<close>

text \<open>
  Claim C9 as amended. On a new file that takes every write, with keys that pass the
  assertions, \<^verbatim>\<open>NumEntries\<close> is at every point the number of records in the file: zero
  for the new builder and for as long as the builder is buffered, when the file holds
  the header alone and every record added is in the sample buffer; the number of records
  added once the builder is unbuffered, when the file holds the frame of each of them,
  written by an \<^verbatim>\<open>Add\<close> or by the replay; and the number of all records after
  \<^verbatim>\<open>Finish\<close>. (When an append fails, the count still goes up with the append of the
  record's header, as the theorem of claim C10 says.)
\<close>

theorem NumEntries_counts_written_records:
  assumes "sorted_wrt (\<lambda>x y. 0 \<le> comparator opts (key y) (key x)) rs"
    and "\<forall>r\<in>set rs. 0 \<le> comparator opts (key r) (key r) \<and> 0 \<le> comparator opts (key r) []"
  shows "\<exists>bf tr. build c opts new_file h rs = Inr (OK, bf, tr) \<and> length tr = length rs \<and>
     NumEntries (NewBlobFileBuilder c opts new_file) = 0 \<and>
     contents (file_writer (NewBlobFileBuilder c opts new_file)) =
       EncodeHeader c (header_flags opts) \<and>
     (\<forall>i<length rs.
        (case builder_state (fst (tr ! i)) of
           kBuffered \<Rightarrow>
             NumEntries (fst (tr ! i)) = 0 \<and>
             contents (file_writer (fst (tr ! i))) = EncodeHeader c (header_flags opts) \<and>
             sample_records (fst (tr ! i)) = map (EncodeTo c) (take (Suc i) rs)
         | kUnbuffered \<Rightarrow>
             NumEntries (fst (tr ! i)) = of_nat (Suc i) \<and>
             contents (file_writer (fst (tr ! i))) =
               EncodeHeader c (header_flags opts) @
               frames c (compression_dict (fst (tr ! i))) (take (Suc i) rs) \<and>
             sample_records (fst (tr ! i)) = [])) \<and>
     NumEntries bf = of_nat (length rs) \<and>
     contents (file_writer bf) =
       EncodeHeader c (header_flags opts) @ frames c (compression_dict bf) rs @
       meta_blocks c opts (compression_dict bf) rs @
       EncodeFooter c (final_footer c opts (compression_dict bf) rs)"
proof -
  define b0 where "b0 = NewBlobFileBuilder c opts new_file"
  from build_no_fault [OF assms, of c h]
  obtain bf tr where r: "build c opts new_file h rs = Inr (OK, bf, tr)" "length tr = length rs"
    "\<forall>i<length rs. add_post c opts h (take i rs) (rs ! i) ((b0 # map fst tr) ! i) (tr ! i)"
    "num_entries bf = of_nat (length rs)"
    "contents (file_writer bf) = file_image c opts (compression_dict bf) rs"
    unfolding b0_def by blast
  have n0: "NumEntries b0 = 0 \<and> contents (file_writer b0) = EncodeHeader c (header_flags opts)"
    by (simp add: b0_def NewBlobFileBuilder_def new_file_def NumEntries_def)
  have pt: "case builder_state (fst (tr ! i)) of
           kBuffered \<Rightarrow>
             NumEntries (fst (tr ! i)) = 0 \<and>
             contents (file_writer (fst (tr ! i))) = EncodeHeader c (header_flags opts) \<and>
             sample_records (fst (tr ! i)) = map (EncodeTo c) (take (Suc i) rs)
         | kUnbuffered \<Rightarrow>
             NumEntries (fst (tr ! i)) = of_nat (Suc i) \<and>
             contents (file_writer (fst (tr ! i))) =
               EncodeHeader c (header_flags opts) @
               frames c (compression_dict (fst (tr ! i))) (take (Suc i) rs) \<and>
             sample_records (fst (tr ! i)) = []"
    if i: "i < length rs" for i
  proof -
    have inv: "builder_inv c opts (take (Suc i) rs) (fst (tr ! i))"
      using trace_inv [of rs c opts h "[]" b0 tr i] r(2,3) i by simp
    have "length (take (Suc i) rs) = Suc i" using i by simp
    then show ?thesis
      using inv by (cases "builder_state (fst (tr ! i))") (simp_all add: builder_inv_def NumEntries_def)
  qed
  show ?thesis
    using r(1,2,4,5) n0 pt unfolding b0_def by (auto simp: file_image_def NumEntries_def)
qed

theorem NumEntries_counts_written_records_witness:
  "\<exists>bf tr. build toy_codec (toy_options True 5) new_file h0 [rec_a, rec_b, rec_c] = Inr (OK, bf, tr) \<and>
      length tr = 3 \<and> NumEntries bf = 3"
  using NumEntries_counts_written_records [OF toy_keys, of toy_codec True 5 h0] by auto


subsection \<open>Header flag and footer handles\<close>

lemma unat_of_nat_u64: "n < 2 ^ 64 \<Longrightarrow> unat (of_nat n :: u64) = n"
  by (simp add: unat_of_nat)

lemma of_nat_u64_nonzero: "0 < n \<Longrightarrow> n < 2 ^ 64 \<Longrightarrow> (of_nat n :: u64) \<noteq> 0"
  using unat_of_nat_u64 [of n] by auto

lemma slice_mid: "length p = n \<Longrightarrow> length m = k \<Longrightarrow> take k (drop n (p @ m @ q)) = m"
  by simp

text \<open>
  Claim C7. A builder on a new file that takes every write, with keys that pass the
  assertions, is finished; the file then starts with the encoded header and ends with
  the encoded footer. With a dictionary configured the header's flags have the dictionary
  bit set, the builder has a dictionary, and - the header being non-empty and the file
  shorter than \<open>2 ^ 64\<close> bytes - both handles of the footer differ from the zero handle
  and point at the dictionary block and at the meta-index block, which lie one after the
  other, each with its five-byte trailer, right before the footer. Without a dictionary
  the flags are zero and both handles of the footer are the zero handle.
\<close>

theorem Finish_dictionary_flag_and_footer:
  assumes "sorted_wrt (\<lambda>x y. 0 \<le> comparator opts (key y) (key x)) rs"
    and "\<forall>r\<in>set rs. 0 \<le> comparator opts (key r) (key r) \<and> 0 \<le> comparator opts (key r) []"
  shows "\<exists>bf tr footer. build c opts new_file h rs = Inr (OK, bf, tr) \<and>
     footer = final_footer c opts (compression_dict bf) rs \<and>
     contents (file_writer bf) =
       EncodeHeader c (header_flags opts) @ frames c (compression_dict bf) rs @
       meta_blocks c opts (compression_dict bf) rs @ EncodeFooter c footer \<and>
     (DictionaryEnabled opts \<longrightarrow>
        header_flags opts AND kHasUncompressionDictionary = kHasUncompressionDictionary \<and>
        (\<exists>cd. compression_dict bf = Some cd \<and>
           (0 < length (EncodeHeader c (header_flags opts)) \<and>
            length (contents (file_writer bf)) < 2 ^ 64 \<longrightarrow>
              meta_index_handle footer \<noteq> null_handle \<and>
              uncompression_dict_handle footer \<noteq> null_handle \<and>
              block_at (contents (file_writer bf)) (uncompression_dict_handle footer) = raw_dict cd \<and>
              block_at (contents (file_writer bf)) (meta_index_handle footer) =
                MetaIndexBlock c [(kCompressionDictBlock, uncompression_dict_handle footer)] \<and>
              unat (b_offset (uncompression_dict_handle footer)) +
                unat (b_size (uncompression_dict_handle footer)) + 5 =
                unat (b_offset (meta_index_handle footer)) \<and>
              unat (b_offset (meta_index_handle footer)) +
                unat (b_size (meta_index_handle footer)) + 5 + length (EncodeFooter c footer) =
                length (contents (file_writer bf))))) \<and>
     (\<not> DictionaryEnabled opts \<longrightarrow>
        header_flags opts AND kHasUncompressionDictionary = 0 \<and>
        compression_dict bf = None \<and>
        meta_index_handle footer = null_handle \<and>
        uncompression_dict_handle footer = null_handle)"
proof -
  from build_no_fault [OF assms, of c h]
  obtain bf tr where r: "build c opts new_file h rs = Inr (OK, bf, tr)"
    "(compression_dict bf \<noteq> None) = DictionaryEnabled opts"
    "contents (file_writer bf) = file_image c opts (compression_dict bf) rs"
    by blast
  define footer where "footer = final_footer c opts (compression_dict bf) rs"
  define H where "H = EncodeHeader c (header_flags opts)"
  have img: "contents (file_writer bf) =
       H @ frames c (compression_dict bf) rs @
       meta_blocks c opts (compression_dict bf) rs @ EncodeFooter c footer"
    using r(3) by (simp add: file_image_def footer_def H_def)
  have off: "\<not> DictionaryEnabled opts \<longrightarrow>
        header_flags opts AND kHasUncompressionDictionary = 0 \<and>
        compression_dict bf = None \<and>
        meta_index_handle footer = null_handle \<and>
        uncompression_dict_handle footer = null_handle"
    using r(2) by (auto simp: header_flags_def footer_def final_footer_def empty_footer_def)
  have on: "header_flags opts AND kHasUncompressionDictionary = kHasUncompressionDictionary \<and>
        (\<exists>cd. compression_dict bf = Some cd \<and>
           (0 < length H \<and> length (contents (file_writer bf)) < 2 ^ 64 \<longrightarrow>
              meta_index_handle footer \<noteq> null_handle \<and>
              uncompression_dict_handle footer \<noteq> null_handle \<and>
              block_at (contents (file_writer bf)) (uncompression_dict_handle footer) = raw_dict cd \<and>
              block_at (contents (file_writer bf)) (meta_index_handle footer) =
                MetaIndexBlock c [(kCompressionDictBlock, uncompression_dict_handle footer)] \<and>
              unat (b_offset (uncompression_dict_handle footer)) +
                unat (b_size (uncompression_dict_handle footer)) + 5 =
                unat (b_offset (meta_index_handle footer)) \<and>
              unat (b_offset (meta_index_handle footer)) +
                unat (b_size (meta_index_handle footer)) + 5 + length (EncodeFooter c footer) =
                length (contents (file_writer bf))))"
    if en: "DictionaryEnabled opts"
  proof -
    obtain cd where cd: "compression_dict bf = Some cd" using r(2) en by auto
    define e where "e = records_end c opts (Some cd) rs"
    define M where "M = meta_block c opts cd rs"
    have e: "e = length (H @ frames c (Some cd) rs)"
      by (simp add: e_def records_end_def H_def)
    have ft: "uncompression_dict_handle footer = \<lparr>b_offset = of_nat e, b_size = of_nat (length (raw_dict cd))\<rparr>"
      "meta_index_handle footer =
         \<lparr>b_offset = of_nat (e + length (raw_dict cd) + 5), b_size = of_nat (length M)\<rparr>"
      "M = MetaIndexBlock c [(kCompressionDictBlock, uncompression_dict_handle footer)]"
      by (simp_all add: footer_def final_footer_def cd dict_block_handle_def meta_block_handle_def
          e_def M_def meta_block_def)
    have data: "contents (file_writer bf) =
        (H @ frames c (Some cd) rs) @ raw_dict cd @
        (block_trailer c (raw_dict cd) @ M @ block_trailer c M @ EncodeFooter c footer)"
      "contents (file_writer bf) =
        (H @ frames c (Some cd) rs @ raw_dict cd @ block_trailer c (raw_dict cd)) @ M @
        (block_trailer c M @ EncodeFooter c footer)"
      using img by (simp_all add: cd meta_blocks_def M_def)
    have len: "length (contents (file_writer bf)) =
        e + length (raw_dict cd) + 5 + length M + 5 + length (EncodeFooter c footer)"
      by (simp add: data(1) e)
    have "meta_index_handle footer \<noteq> null_handle \<and>
              uncompression_dict_handle footer \<noteq> null_handle \<and>
              block_at (contents (file_writer bf)) (uncompression_dict_handle footer) = raw_dict cd \<and>
              block_at (contents (file_writer bf)) (meta_index_handle footer) =
                MetaIndexBlock c [(kCompressionDictBlock, uncompression_dict_handle footer)] \<and>
              unat (b_offset (uncompression_dict_handle footer)) +
                unat (b_size (uncompression_dict_handle footer)) + 5 =
                unat (b_offset (meta_index_handle footer)) \<and>
              unat (b_offset (meta_index_handle footer)) +
                unat (b_size (meta_index_handle footer)) + 5 + length (EncodeFooter c footer) =
                length (contents (file_writer bf))"
      if h: "0 < length H" "length (contents (file_writer bf)) < 2 ^ 64"
    proof -
      have b: "0 < e" "e < 2 ^ 64" "length (raw_dict cd) < 2 ^ 64"
        "e + length (raw_dict cd) + 5 < 2 ^ 64" "length M < 2 ^ 64" "0 < e + length (raw_dict cd) + 5"
        using h len e by simp_all
      have u: "unat (b_offset (uncompression_dict_handle footer)) = e"
        "unat (b_size (uncompression_dict_handle footer)) = length (raw_dict cd)"
        "unat (b_offset (meta_index_handle footer)) = e + length (raw_dict cd) + 5"
        "unat (b_size (meta_index_handle footer)) = length M"
        unfolding ft(1,2)
        using unat_of_nat_u64 [OF b(2)] unat_of_nat_u64 [OF b(3)] unat_of_nat_u64 [OF b(4)]
          unat_of_nat_u64 [OF b(5)]
        by (simp_all only: BlockHandle.select_convs)
      have nz: "meta_index_handle footer \<noteq> null_handle"
        "uncompression_dict_handle footer \<noteq> null_handle"
        unfolding ft(1,2) null_handle_def
        using of_nat_u64_nonzero [OF b(1,2)] of_nat_u64_nonzero [OF b(6,4)]
        by (simp_all only: BlockHandle.ext_inject BlockHandle.select_convs simp_thms)
      have b1: "block_at (contents (file_writer bf)) (uncompression_dict_handle footer) = raw_dict cd"
        unfolding block_at_def u data(1) using e by (intro slice_mid) simp_all
      have b2: "block_at (contents (file_writer bf)) (meta_index_handle footer) = M"
        unfolding block_at_def u data(2) using e by (intro slice_mid) simp_all
      show ?thesis using nz b1 b2 u len ft(3) by simp
    qed
    then show ?thesis using en cd by (simp add: header_flags_def kHasUncompressionDictionary_def)
  qed
  show ?thesis
    using r(1) img on off unfolding footer_def H_def by blast
qed

subsection \<open>Reading the finished file\<close>

lemma frames_append: "frames c d (xs @ ys) = frames c d xs @ frames c d ys"
  by (simp add: frames_def)

lemma records_end_Suc:
  assumes "i < length rs"
  shows "records_end c opts d (take (Suc i) rs) =
           records_end c opts d (take i rs) + length (frame_of c d (EncodeTo c (rs ! i)))"
  using assms by (simp add: records_end_def take_Suc_conv_app_nth frames_snoc)

lemma records_end_mono:
  assumes "i \<le> j"
  shows "records_end c opts d (take i rs) \<le> records_end c opts d (take j rs)"
proof -
  have "take j rs = take i rs @ take (j - i) (drop i rs)"
    using assms take_add [of i "j - i" rs] by simp
  then show ?thesis by (simp add: records_end_def frames_append)
qed

lemma records_end_le: "records_end c opts d (take i rs) \<le> records_end c opts d rs"
  using frames_append [of c d "take i rs" "drop i rs"] by (simp add: records_end_def)

lemma record_fits_frame:
  assumes "record_fits c d r"
  obtains t body where "Compress c d (EncodeTo c r) = (t, body)"
    and "frame_of c d (EncodeTo c r) = RecordHeader c t body @ body"
    and "length (RecordHeader c t body) = kRecordHeaderSize c"
    and "RecordHeader c t body @ body \<noteq> []"
    and "DecodeRecordHeader c (RecordHeader c t body) = Some (t, length body)"
    and "VerifyChecksum c (RecordHeader c t body) body"
    and "Uncompress c (map_option raw_dict d) t body = Some (EncodeTo c r)"
    and "DecodeFrom c (EncodeTo c r) = Some r"
proof -
  obtain t body where cp: "Compress c d (EncodeTo c r) = (t, body)"
    by (cases "Compress c d (EncodeTo c r)")
  show ?thesis
    using assms cp that [of t body]
    by (simp add: record_fits_def frame_of_def Let_def del: append_is_Nil_conv)
qed

lemma file_image_split:
  assumes "i < length rs"
  shows "file_image c opts d rs =
     (EncodeHeader c (header_flags opts) @ frames c d (take i rs)) @
     frame_of c d (EncodeTo c (rs ! i)) @
     (frames c d (drop (Suc i) rs) @ meta_blocks c opts d rs @
      EncodeFooter c (final_footer c opts d rs))"
proof -
  have "rs = take i rs @ [rs ! i] @ drop (Suc i) rs"
    using assms id_take_nth_drop [of i rs] by simp
  then have "frames c d rs =
      frames c d (take i rs) @ frame_of c d (EncodeTo c (rs ! i)) @ frames c d (drop (Suc i) rs)"
    using frames_append [of c d "take i rs" "[rs ! i] @ drop (Suc i) rs"]
      frames_append [of c d "[rs ! i]" "drop (Suc i) rs"]
    by (simp add: frames_def)
  then show ?thesis by (simp add: file_image_def)
qed

lemma slice_at:
  assumes "data = p @ m @ q" and "length p = n"
  shows "take (length m) (drop n data) = m" and "drop n data = m @ q"
  using assms by simp_all

lemma read_header_at:
  assumes pos: "it_file it = file_image c opts d rs"
      "end_of_blob_record it = records_end c opts d rs"
    and i: "i < length rs" and fit: "record_fits c d (rs ! i)"
    and cp: "Compress c d (EncodeTo c (rs ! i)) = (t, body)"
  shows "read_header c it (records_end c opts d (take i rs)) = Some (t, length body)"
    and "take (length body) (drop (records_end c opts d (take i rs) + kRecordHeaderSize c) (it_file it)) = body"
proof -
  define off where "off = records_end c opts d (take i rs)"
  define hdr where "hdr = RecordHeader c t body"
  define q where "q = frames c d (drop (Suc i) rs) @ meta_blocks c opts d rs @
      EncodeFooter c (final_footer c opts d rs)"
  have f: "frame_of c d (EncodeTo c (rs ! i)) = hdr @ body" "length hdr = kRecordHeaderSize c"
    "hdr @ body \<noteq> []" "DecodeRecordHeader c hdr = Some (t, length body)"
    "VerifyChecksum c hdr body"
    using fit cp
    by (simp_all add: record_fits_def frame_of_def hdr_def Let_def del: append_is_Nil_conv)
  have pos_len: "0 < kRecordHeaderSize c + length body"
    using f(2,3) length_greater_0_conv [of "hdr @ body"] by (simp del: length_greater_0_conv)
  have sp: "it_file it = (EncodeHeader c (header_flags opts) @ frames c d (take i rs)) @ hdr @ (body @ q)"
    "it_file it = ((EncodeHeader c (header_flags opts) @ frames c d (take i rs)) @ hdr) @ body @ q"
    using file_image_split [OF i, of c opts d] pos(1) f(1) by (simp_all add: q_def)
  have lp: "length (EncodeHeader c (header_flags opts) @ frames c d (take i rs)) = off"
    by (simp add: off_def records_end_def)
  have lp2: "length ((EncodeHeader c (header_flags opts) @ frames c d (take i rs)) @ hdr) =
             off + kRecordHeaderSize c"
    using lp f(2) by simp
  have h: "take (kRecordHeaderSize c) (drop off (it_file it)) = hdr"
    using slice_at(1) [OF sp(1) lp] f(2) by simp
  show b: "take (length body) (drop (off + kRecordHeaderSize c) (it_file it)) = body"
    using slice_at(1) [OF sp(2) lp2] by simp
  have "off + length (hdr @ body) \<le> records_end c opts d rs"
    using records_end_Suc [OF i, of c opts d] records_end_le [of c opts d "Suc i" rs] f(1)
    by (simp add: off_def)
  then have le: "off + kRecordHeaderSize c + length body \<le> end_of_blob_record it"
    using f(2) pos(2) by simp
  show "read_header c it off = Some (t, length body)"
    using le pos_len f(4,5) h b by (simp add: read_header_def)
qed

lemma Next_at_record:
  assumes pos: "positioned c opts d rs it i" and i: "i < length rs"
    and fit: "record_fits c d (rs ! i)"
  shows "showing c opts d rs (Next c it) i"
proof -
  from fit obtain t body where r: "Compress c d (EncodeTo c (rs ! i)) = (t, body)"
    "frame_of c d (EncodeTo c (rs ! i)) = RecordHeader c t body @ body"
    "length (RecordHeader c t body) = kRecordHeaderSize c"
    "RecordHeader c t body @ body \<noteq> []"
    "Uncompress c (map_option raw_dict d) t body = Some (EncodeTo c (rs ! i))"
    "DecodeFrom c (EncodeTo c (rs ! i)) = Some (rs ! i)"
    by (rule record_fits_frame)
  have p: "it_file it = file_image c opts d rs" "end_of_blob_record it = records_end c opts d rs"
    "uncompression_dict it = map_option raw_dict d" "it_status it = OK" "init_status it = OK"
    "iterate_offset it = records_end c opts d (take i rs)"
    using pos by (simp_all add: positioned_def)
  note rh = read_header_at [OF p(1,2) i fit r(1)]
  have rr: "read_record c it (iterate_offset it) =
      Some (rs ! i, kRecordHeaderSize c + length body)"
    unfolding p(6) read_record_def rh(1) using rh(2) r(5,6) p(3) by simp
  have nx: "records_end c opts d (take (Suc i) rs) =
      iterate_offset it + (kRecordHeaderSize c + length body)"
    using records_end_Suc [OF i, of c opts d] r(2,3) p(6) by simp
  have pos_len: "0 < kRecordHeaderSize c + length body"
    using r(3,4) length_greater_0_conv [of "RecordHeader c t body @ body"]
    by (simp del: length_greater_0_conv)
  have ne: "iterate_offset it \<noteq> end_of_blob_record it"
    using nx records_end_le [of c opts d "Suc i" rs] pos_len p(2) by linarith
  have fl: "length (frame_of c d (EncodeTo c (rs ! i))) = kRecordHeaderSize c + length body"
    using r(2,3) by simp
  show ?thesis
    using p ne rr nx
    by (simp add: Next_def showing_def positioned_def record_handle_def fl)
qed

lemma Next_at_end:
  assumes "positioned c opts d rs it (length rs)"
  shows "\<not> valid (Next c it) \<and> it_status (Next c it) = OK"
  using assms by (simp add: Next_def positioned_def)


lemma NewBlobFileIterator_image:
  assumes fit: "codec_fits c opts d rs" and en: "(d \<noteq> None) = DictionaryEnabled opts"
  shows "it_file (NewBlobFileIterator c (file_image c opts d rs)) = file_image c opts d rs"
    and "init_status (NewBlobFileIterator c (file_image c opts d rs)) = OK"
    and "uncompression_dict (NewBlobFileIterator c (file_image c opts d rs)) = map_option raw_dict d"
    and "end_of_blob_record (NewBlobFileIterator c (file_image c opts d rs)) = records_end c opts d rs"
proof -
  define data where "data = file_image c opts d rs"
  define H where "H = EncodeHeader c (header_flags opts)"
  define FT where "FT = EncodeFooter c (final_footer c opts d rs)"
  define MB where "MB = meta_blocks c opts d rs"
  have c: "length H = kHeaderSize c" "DecodeHeader c H = Some (header_flags opts)"
    "length FT = kFooterSize c" "DecodeFooter c FT = Some (final_footer c opts d rs)"
    "length data < 2 ^ 64"
    using fit by (simp_all add: codec_fits_def H_def FT_def data_def)
  have img: "data = H @ (frames c d rs @ MB @ FT)" "data = (H @ frames c d rs @ MB) @ FT"
    by (simp_all add: data_def file_image_def H_def FT_def MB_def)
  have e: "records_end c opts d rs = length (H @ frames c d rs)"
    by (simp add: records_end_def H_def)
  have len: "length data = records_end c opts d rs + length MB + kFooterSize c"
    using c(3) by (simp add: img(1) e)
  have ge: "\<not> length data < kHeaderSize c + kFooterSize c"
    using c(1) len e by simp
  have th: "take (kHeaderSize c) data = H"
    using c(1) by (simp add: img(1))
  have "length data - kFooterSize c = length (H @ frames c d rs @ MB)"
    using c(3) by (simp add: img(1))
  then have df: "drop (length data - kFooterSize c) data = FT"
    by (simp only: img(2) append_eq_conv_conj drop_all append_Nil drop_append length_append diff_self_eq_0 drop_0 order_refl)
  let ?blank = "\<lparr>it_file = data, init_status = Corruption, uncompression_dict = None,
                    end_of_blob_record = 0, iterate_offset = 0, it_status = OK, valid = False,
                    cur_key = [], cur_value = [],
                    cur_handle = \<lparr>h_offset = 0, h_size = 0\<rparr>\<rparr>"
  have N: "NewBlobFileIterator c data =
      (if header_flags opts AND kHasUncompressionDictionary \<noteq> 0 then
         ?blank\<lparr>init_status := OK,
           uncompression_dict :=
             Some (block_at data (uncompression_dict_handle (final_footer c opts d rs))),
           end_of_blob_record :=
             unat (b_offset (uncompression_dict_handle (final_footer c opts d rs)))\<rparr>
       else ?blank\<lparr>init_status := OK, end_of_blob_record := length data - kFooterSize c\<rparr>)"
    using ge by (simp add: NewBlobFileIterator_def Let_def th df c(2,4))
  have fl: "(header_flags opts AND kHasUncompressionDictionary \<noteq> 0) = DictionaryEnabled opts"
    by (simp add: header_flags_def kHasUncompressionDictionary_def)
  have r: "it_file (NewBlobFileIterator c data) = data \<and>
    init_status (NewBlobFileIterator c data) = OK \<and>
    uncompression_dict (NewBlobFileIterator c data) = map_option raw_dict d \<and>
    end_of_blob_record (NewBlobFileIterator c data) = records_end c opts d rs"
  proof (cases d)
    case None
    then have "\<not> DictionaryEnabled opts" "MB = []"
      using en by (simp_all add: MB_def meta_blocks_def)
    then show ?thesis using None len by (simp add: N fl)
  next
    case (Some cd)
    then have en': "DictionaryEnabled opts" using en by simp
    have dh: "uncompression_dict_handle (final_footer c opts d rs) =
        \<lparr>b_offset = of_nat (records_end c opts d rs), b_size = of_nat (length (raw_dict cd))\<rparr>"
      by (simp add: final_footer_def Some dict_block_handle_def)
    have mb: "MB = raw_dict cd @ (block_trailer c (raw_dict cd) @
        meta_block c opts cd rs @ block_trailer c (meta_block c opts cd rs))"
      by (simp add: MB_def meta_blocks_def Some)
    have b: "records_end c opts d rs < 2 ^ 64" "length (raw_dict cd) < 2 ^ 64"
      using c(5) len mb by simp_all
    have u: "unat (b_offset (uncompression_dict_handle (final_footer c opts d rs))) =
               records_end c opts d rs"
      "unat (b_size (uncompression_dict_handle (final_footer c opts d rs))) = length (raw_dict cd)"
      unfolding dh using unat_of_nat_u64 [OF b(1)] unat_of_nat_u64 [OF b(2)]
      by (simp_all only: BlockHandle.select_convs)
    have "data = (H @ frames c d rs) @ raw_dict cd @ (block_trailer c (raw_dict cd) @
        meta_block c opts cd rs @ block_trailer c (meta_block c opts cd rs) @ FT)"
      by (simp add: img(1) mb)
    then have "block_at data (uncompression_dict_handle (final_footer c opts d rs)) = raw_dict cd"
      unfolding block_at_def u by (rule slice_at(1)) (simp add: e)
    then show ?thesis using Some en' u by (simp add: N fl)
  qed
  show "it_file (NewBlobFileIterator c (file_image c opts d rs)) = file_image c opts d rs"
    and "init_status (NewBlobFileIterator c (file_image c opts d rs)) = OK"
    and "uncompression_dict (NewBlobFileIterator c (file_image c opts d rs)) = map_option raw_dict d"
    and "end_of_blob_record (NewBlobFileIterator c (file_image c opts d rs)) = records_end c opts d rs"
    using r by (simp_all add: data_def)
qed

lemma header_is_first_offset:
  assumes "codec_fits c opts d rs"
  shows "kHeaderSize c = records_end c opts d (take 0 rs)"
  using assms by (simp add: codec_fits_def records_end_def frames_def)

lemma read_n_finished:
  assumes "positioned c opts d rs it (length rs)"
  shows "read_n c k (Next c it) = replicate k None"
  using assms
proof (induction k arbitrary: it)
  case 0
  then show ?case by simp
next
  case (Suc k)
  have "positioned c opts d rs (Next c it) (length rs)" "\<not> valid (Next c it)"
    using Suc.prems by (simp_all add: Next_def positioned_def)
  then show ?case using Suc.IH [of "Next c it"] by simp
qed

lemma read_n_all:
  assumes "positioned c opts d rs it i" and "i + k = length rs"
    and "\<forall>r\<in>set rs. record_fits c d r"
  shows "read_n c (k + m) (Next c it) =
     map (\<lambda>j. Some (key (rs ! j), val (rs ! j), record_handle c opts d rs j)) [i..<length rs] @
     replicate m None"
  using assms(1,2)
proof (induction k arbitrary: it i)
  case 0
  then show ?case using read_n_finished [of c opts d rs it m] by simp
next
  case (Suc k)
  then have i: "i < length rs" by simp
  then have "record_fits c d (rs ! i)" using assms(3) by simp
  from Next_at_record [OF Suc.prems(1) i this]
  have sh: "showing c opts d rs (Next c it) i" .
  then have p: "positioned c opts d rs (Next c it) (Suc i)" and v: "valid (Next c it)"
    "it_status (Next c it) = OK"
    "cur_key (Next c it) = key (rs ! i)" "cur_value (Next c it) = val (rs ! i)"
    "cur_handle (Next c it) = record_handle c opts d rs i"
    by (simp_all add: showing_def positioned_def)
  have "Suc i + k = length rs" using Suc.prems(2) by simp
  from Suc.IH [OF p this]
  show ?case using v i by (simp add: upt_conv_Cons)
qed

lemma scan_for_prev_finds:
  assumes pos: "it_file it = file_image c opts d rs"
      "end_of_blob_record it = records_end c opts d rs"
    and fit: "\<forall>r\<in>set rs. record_fits c d r"
    and ij: "i \<le> j" "j < length rs" and t: "t < records_end c opts d (take (Suc j) rs)"
      "i < j \<longrightarrow> records_end c opts d (take j rs) \<le> t"
  shows "scan_for_prev c it t (records_end c opts d (take i rs)) =
           Some (records_end c opts d (take j rs))"
  using ij(1) t(2)
proof (induction "j - i" arbitrary: i)
  case 0
  then have e: "i = j" by simp
  have f: "record_fits c d (rs ! j)" using fit ij(2) by simp
  from f obtain ty body where r: "Compress c d (EncodeTo c (rs ! j)) = (ty, body)"
    "frame_of c d (EncodeTo c (rs ! j)) = RecordHeader c ty body @ body"
    "length (RecordHeader c ty body) = kRecordHeaderSize c"
    "RecordHeader c ty body @ body \<noteq> []"
    by (rule record_fits_frame)
  have pl: "0 < kRecordHeaderSize c + length body"
    using r(3,4) length_greater_0_conv [of "RecordHeader c ty body @ body"]
    by (simp del: length_greater_0_conv)
  have nx: "records_end c opts d (take (Suc j) rs) =
            records_end c opts d (take j rs) + kRecordHeaderSize c + length body"
    using records_end_Suc [OF ij(2), of c opts d] r(2,3) by simp
  have ne: "\<not> end_of_blob_record it \<le> records_end c opts d (take j rs)"
    using nx records_end_le [of c opts d "Suc j" rs] pl pos(2) by linarith
  show ?case
    unfolding e
    using ne read_header_at(1) [OF pos ij(2) f r(1)] t(1) nx
    by (subst scan_for_prev.simps) simp
next
  case (Suc n)
  then have lt: "i < j" and i: "i < length rs" using ij(2) by simp_all
  have f: "record_fits c d (rs ! i)" using fit i by simp
  from f obtain ty body where r: "Compress c d (EncodeTo c (rs ! i)) = (ty, body)"
    "frame_of c d (EncodeTo c (rs ! i)) = RecordHeader c ty body @ body"
    "length (RecordHeader c ty body) = kRecordHeaderSize c"
    "RecordHeader c ty body @ body \<noteq> []"
    by (rule record_fits_frame)
  have pl: "0 < kRecordHeaderSize c + length body"
    using r(3,4) length_greater_0_conv [of "RecordHeader c ty body @ body"]
    by (simp del: length_greater_0_conv)
  have nx: "records_end c opts d (take (Suc i) rs) =
            records_end c opts d (take i rs) + kRecordHeaderSize c + length body"
    using records_end_Suc [OF i, of c opts d] r(2,3) by simp
  have ne: "\<not> end_of_blob_record it \<le> records_end c opts d (take i rs)"
    using nx records_end_le [of c opts d "Suc i" rs] pl pos(2) by linarith
  have "records_end c opts d (take (Suc i) rs) \<le> t"
    using records_end_mono [of "Suc i" j c opts d rs] lt Suc.prems(2) by simp
  then have ge: "\<not> t < records_end c opts d (take i rs) + kRecordHeaderSize c + length body"
    using nx by simp
  have ih: "scan_for_prev c it t (records_end c opts d (take (Suc i) rs)) =
              Some (records_end c opts d (take j rs))"
    using Suc.hyps(1) [of "Suc i"] Suc.hyps(2) lt Suc.prems(2) by simp
  show ?case
    using ne read_header_at(1) [OF pos i f r(1)] ge ih nx
    by (subst scan_for_prev.simps) simp
qed


lemma record_handle_unat:
  assumes fit: "codec_fits c opts d rs" and i: "i < length rs"
  shows "unat (h_offset (record_handle c opts d rs i)) = records_end c opts d (take i rs)"
    and "unat (h_offset (record_handle c opts d rs i)) + unat (h_size (record_handle c opts d rs i)) =
           records_end c opts d (take (Suc i) rs)"
    and "0 < unat (h_size (record_handle c opts d rs i))"
proof -
  have "length (file_image c opts d rs) < 2 ^ 64" using fit by (simp add: codec_fits_def)
  moreover have "records_end c opts d rs \<le> length (file_image c opts d rs)"
    by (simp add: records_end_def file_image_def)
  ultimately have b: "records_end c opts d rs < 2 ^ 64" by simp
  have s: "records_end c opts d (take (Suc i) rs) =
      records_end c opts d (take i rs) + length (frame_of c d (EncodeTo c (rs ! i)))"
    using records_end_Suc [OF i] .
  have le: "records_end c opts d (take (Suc i) rs) \<le> records_end c opts d rs"
    using records_end_le .
  have b1: "records_end c opts d (take i rs) < 2 ^ 64"
    and b2: "length (frame_of c d (EncodeTo c (rs ! i))) < 2 ^ 64"
    using b s le by simp_all
  have "record_fits c d (rs ! i)" using fit i by (simp add: codec_fits_def)
  then obtain t body where "frame_of c d (EncodeTo c (rs ! i)) = RecordHeader c t body @ body"
    "RecordHeader c t body @ body \<noteq> []"
    by (rule record_fits_frame)
  then have p: "0 < length (frame_of c d (EncodeTo c (rs ! i)))" by simp
  show o: "unat (h_offset (record_handle c opts d rs i)) = records_end c opts d (take i rs)"
    unfolding record_handle_def using unat_of_nat_u64 [OF b1]
    by (simp only: BlobHandle.select_convs)
  have z: "unat (h_size (record_handle c opts d rs i)) = length (frame_of c d (EncodeTo c (rs ! i)))"
    unfolding record_handle_def using unat_of_nat_u64 [OF b2]
    by (simp only: BlobHandle.select_convs)
  show "unat (h_offset (record_handle c opts d rs i)) + unat (h_size (record_handle c opts d rs i)) =
           records_end c opts d (take (Suc i) rs)"
    using o z s by simp
  show "0 < unat (h_size (record_handle c opts d rs i))" using z p by simp
qed

lemma trace_inv_before:
  assumes "builder_inv c opts [] b0"
    and "\<forall>i<length rs. add_post c opts h (take i rs) (rs ! i) ((b0 # map fst tr) ! i) (tr ! i)"
    and "length tr = length rs" and "i \<le> length rs"
  shows "builder_inv c opts (take i rs) ((b0 # map fst tr) ! i)"
proof (cases i)
  case 0
  then show ?thesis using assms(1) by simp
next
  case (Suc k)
  then have k: "k < length rs" using assms(4) by simp
  show ?thesis
    using trace_inv [of rs c opts h "[]" b0 tr k] assms(2,3) k Suc by simp
qed

text \<open>What a whole run gives for reading the file back.\<close>

lemma build_for_reading:
  assumes "sorted_wrt (\<lambda>x y. 0 \<le> comparator opts (key y) (key x)) rs"
    and "\<forall>r\<in>set rs. 0 \<le> comparator opts (key r) (key r) \<and> 0 \<le> comparator opts (key r) []"
  shows "\<exists>bf tr. build c opts new_file h rs = Inr (OK, bf, tr) \<and> length tr = length rs \<and>
     (compression_dict bf \<noteq> None) = DictionaryEnabled opts \<and>
     contents (file_writer bf) = file_image c opts (compression_dict bf) rs \<and>
     (\<forall>i<length rs. snd (tr ! i) =
        (if builder_state ((NewBlobFileBuilder c opts new_file # map fst tr) ! i) = kUnbuffered
         then record_handle c opts (compression_dict bf) rs i else h))"
proof -
  define b0 where "b0 = NewBlobFileBuilder c opts new_file"
  from build_no_fault [OF assms, of c h]
  obtain bf tr where r: "build c opts new_file h rs = Inr (OK, bf, tr)" "length tr = length rs"
    "\<forall>i<length rs. add_post c opts h (take i rs) (rs ! i) ((b0 # map fst tr) ! i) (tr ! i)"
    "compression_dict bf =
       (if builder_state (last_builder b0 tr) = kBuffered
        then Some (trained_dict c opts (map (EncodeTo c) rs))
        else compression_dict (last_builder b0 tr))"
    "(compression_dict bf \<noteq> None) = DictionaryEnabled opts"
    "contents (file_writer bf) = file_image c opts (compression_dict bf) rs"
    unfolding b0_def by blast
  define bs where "bs = b0 # map fst tr"
  have sh: "\<forall>i<length rs. add_post c opts h (take i rs) (rs ! i) (bs ! i) (bs ! Suc i, snd (tr ! i))"
    using trace_shape [OF r(3,2)] by (simp add: bs_def)
  have i0: "builder_inv c opts [] b0"
    using new_builder_inv [of c opts] by (simp add: b0_def)
  have lastb: "last_builder b0 tr = bs ! length rs"
    using r(2) last_builder_nth [of b0 tr] by (simp add: bs_def)
  have hd: "snd (tr ! i) =
        (if builder_state (bs ! i) = kUnbuffered
         then record_handle c opts (compression_dict bf) rs i else h)"
    if i: "i < length rs" for i
  proof (cases "builder_state (bs ! i)")
    case kBuffered
    have "add_post c opts h (take i rs) (rs ! i) (bs ! i) (bs ! Suc i, snd (tr ! i))"
      using sh i by blast
    then show ?thesis using kBuffered by (simp add: add_post_def)
  next
    case kUnbuffered
    have ap: "add_post c opts h (take i rs) (rs ! i) (bs ! i) (bs ! Suc i, snd (tr ! i))"
      using sh i by blast
    have le: "i \<le> length rs" using i by simp
    have d: "compression_dict (bs ! i) = compression_dict bf"
      using add_post_states [OF sh le order_refl kUnbuffered] r(4) lastb by simp
    have inv: "builder_inv c opts (take i rs) (bs ! i)"
      using trace_inv_before [OF i0 r(3,2) le] by (simp add: bs_def)
    then have "contents (file_writer (bs ! i)) =
        EncodeHeader c (header_flags opts) @ frames c (compression_dict bf) (take i rs)"
      using kUnbuffered d by (simp add: builder_inv_def)
    then have fs: "GetFileSize (file_writer (bs ! i)) =
        of_nat (records_end c opts (compression_dict bf) (take i rs))"
      by (simp add: GetFileSize_def records_end_def)
    have "snd (tr ! i) = \<lparr>h_offset = GetFileSize (file_writer (bs ! i)),
        h_size = of_nat (length (frame_of c (compression_dict (bs ! i)) (EncodeTo c (rs ! i))))\<rparr>"
      using ap kUnbuffered by (simp add: add_post_def)
    then show ?thesis using kUnbuffered fs d by (simp add: record_handle_def)
  qed
  show ?thesis
    using r(1,2,5,6) hd unfolding bs_def b0_def by blast
qed

subsection \<open>Round trip\<close>

text \<open>
  Claim C1 says that the handles returned by \<^verbatim>\<open>Add\<close> have increasing ranges that do
  not overlap, with or without a dictionary and for every comparator. With a dictionary
  and a budget of 5 bytes the first two of three records are added while the builder is
  buffered: these calls leave the caller's handle as it was, offset 0 and size 0 both
  times when the caller passes such a handle, and offset 40 and size 9 both times, the
  same range twice and beyond the third, when the caller passes that one; only the third
  call returns the range of its record, offset 17 and size 5. And under the
  reverse of the bytewise comparator the first \<^verbatim>\<open>Add\<close> of a sequence of one record
  fails the assertion, which compares the key with the empty largest key.
\<close>

theorem Add_handles_counterexample:
  "\<not> isl (build toy_codec (toy_options True 5) new_file h0 [rec_a, rec_b, rec_c]) \<and>
   fst (projr (build toy_codec (toy_options True 5) new_file h0 [rec_a, rec_b, rec_c])) = OK \<and>
   map snd (snd (snd (projr
     (build toy_codec (toy_options True 5) new_file h0 [rec_a, rec_b, rec_c])))) =
     [\<lparr>h_offset = 0, h_size = 0\<rparr>, \<lparr>h_offset = 0, h_size = 0\<rparr>, \<lparr>h_offset = 17, h_size = 5\<rparr>] \<and>
   map snd (snd (snd (projr
     (build toy_codec (toy_options True 5) new_file \<lparr>h_offset = 40, h_size = 9\<rparr>
        [rec_a, rec_b, rec_c])))) =
     [\<lparr>h_offset = 40, h_size = 9\<rparr>, \<lparr>h_offset = 40, h_size = 9\<rparr>, \<lparr>h_offset = 17, h_size = 5\<rparr>] \<and>
   reverse_cmp (key rec_a) (key rec_a) = 0 \<and>
   build toy_codec reverse_options new_file h0 [rec_a] = Inl AssertionFailed"
  by (simp add: builder_defs toy_defs rec_defs trained_dict_def copy_len_def Let_def
      reverse_options_def reverse_cmp_def)

text \<open>
  Claim C1 as amended. Records whose keys are non-decreasing under the comparator (which
  is reflexive on these keys and puts the empty key first, as the bytewise comparator
  does) are added to a builder, with or without a dictionary, on a new file that takes
  every write, and the builder is finished: the run returns ok. Every \<^verbatim>\<open>Add\<close> made
  while the builder is unbuffered returns the handle of the record's byte range in the
  finished file; an \<^verbatim>\<open>Add\<close> made while the builder is buffered leaves the caller's
  handle as it is. When the decoders undo the encoders on this file, the iterator, from
  \<^verbatim>\<open>SeekToFirst\<close> on, shows exactly the keys and values of the records in their order,
  each with the handle of its byte range, and nothing after them; these handles have
  strictly increasing offsets and ranges that do not overlap, and so have the handles
  that the calls of \<^verbatim>\<open>Add\<close> on the unbuffered builder returned.
\<close>

theorem build_then_iterate_roundtrip:
  assumes "sorted_wrt (\<lambda>x y. 0 \<le> comparator opts (key y) (key x)) rs"
    and "\<forall>r\<in>set rs. 0 \<le> comparator opts (key r) (key r) \<and> 0 \<le> comparator opts (key r) []"
  shows "\<exists>bf tr. build c opts new_file h rs = Inr (OK, bf, tr) \<and> length tr = length rs \<and>
     (\<forall>i<length rs. snd (tr ! i) =
        (if builder_state ((NewBlobFileBuilder c opts new_file # map fst tr) ! i) = kUnbuffered
         then record_handle c opts (compression_dict bf) rs i else h)) \<and>
     (codec_fits c opts (compression_dict bf) rs \<longrightarrow>
        read_n c (length rs + 1)
          (SeekToFirst c (NewBlobFileIterator c (contents (file_writer bf)))) =
          map (\<lambda>i. Some (key (rs ! i), val (rs ! i),
                          record_handle c opts (compression_dict bf) rs i)) [0..<length rs] @
          [None] \<and>
        (\<forall>i j. i < j \<and> j < length rs \<longrightarrow>
           unat (h_offset (record_handle c opts (compression_dict bf) rs i)) <
             unat (h_offset (record_handle c opts (compression_dict bf) rs j)) \<and>
           unat (h_offset (record_handle c opts (compression_dict bf) rs i)) +
             unat (h_size (record_handle c opts (compression_dict bf) rs i)) \<le>
             unat (h_offset (record_handle c opts (compression_dict bf) rs j))) \<and>
        (\<forall>i j. i < j \<and> j < length rs \<and>
           builder_state ((NewBlobFileBuilder c opts new_file # map fst tr) ! i) = kUnbuffered \<and>
           builder_state ((NewBlobFileBuilder c opts new_file # map fst tr) ! j) = kUnbuffered \<longrightarrow>
           unat (h_offset (snd (tr ! i))) < unat (h_offset (snd (tr ! j))) \<and>
           unat (h_offset (snd (tr ! i))) + unat (h_size (snd (tr ! i))) \<le>
             unat (h_offset (snd (tr ! j)))))"
proof -
  from build_for_reading [OF assms, of c h]
  obtain bf tr where r: "build c opts new_file h rs = Inr (OK, bf, tr)" "length tr = length rs"
    "(compression_dict bf \<noteq> None) = DictionaryEnabled opts"
    "contents (file_writer bf) = file_image c opts (compression_dict bf) rs"
    "\<forall>i<length rs. snd (tr ! i) =
        (if builder_state ((NewBlobFileBuilder c opts new_file # map fst tr) ! i) = kUnbuffered
         then record_handle c opts (compression_dict bf) rs i else h)"
    by blast
  define d where "d = compression_dict bf"
  have rd: "read_n c (length rs + 1)
          (SeekToFirst c (NewBlobFileIterator c (contents (file_writer bf)))) =
          map (\<lambda>i. Some (key (rs ! i), val (rs ! i), record_handle c opts d rs i)) [0..<length rs] @
          [None] \<and>
        (\<forall>i j. i < j \<and> j < length rs \<longrightarrow>
           unat (h_offset (record_handle c opts d rs i)) <
             unat (h_offset (record_handle c opts d rs j)) \<and>
           unat (h_offset (record_handle c opts d rs i)) +
             unat (h_size (record_handle c opts d rs i)) \<le>
             unat (h_offset (record_handle c opts d rs j))) \<and>
        (\<forall>i j. i < j \<and> j < length rs \<and>
           builder_state ((NewBlobFileBuilder c opts new_file # map fst tr) ! i) = kUnbuffered \<and>
           builder_state ((NewBlobFileBuilder c opts new_file # map fst tr) ! j) = kUnbuffered \<longrightarrow>
           unat (h_offset (snd (tr ! i))) < unat (h_offset (snd (tr ! j))) \<and>
           unat (h_offset (snd (tr ! i))) + unat (h_size (snd (tr ! i))) \<le>
             unat (h_offset (snd (tr ! j))))"
    if fit: "codec_fits c opts d rs"
  proof -
    define N where "N = NewBlobFileIterator c (file_image c opts d rs)"
    note n = NewBlobFileIterator_image [OF fit r(3) [folded d_def], folded N_def]
    have p: "positioned c opts d rs (N\<lparr>it_status := OK, iterate_offset := kHeaderSize c\<rparr>) 0"
      using n header_is_first_offset [OF fit] by (simp add: positioned_def)
    have fits: "\<forall>r\<in>set rs. record_fits c d r" using fit by (simp add: codec_fits_def)
    have "SeekToFirst c N = Next c (N\<lparr>it_status := OK, iterate_offset := kHeaderSize c\<rparr>)"
      using n(2) by (simp add: SeekToFirst_def)
    then have 1: "read_n c (length rs + 1) (SeekToFirst c N) =
        map (\<lambda>i. Some (key (rs ! i), val (rs ! i), record_handle c opts d rs i)) [0..<length rs] @
        [None]"
      using read_n_all [OF p _ fits, of "length rs" 1] by simp
    have 2: "unat (h_offset (record_handle c opts d rs i)) <
             unat (h_offset (record_handle c opts d rs j)) \<and>
           unat (h_offset (record_handle c opts d rs i)) +
             unat (h_size (record_handle c opts d rs i)) \<le>
             unat (h_offset (record_handle c opts d rs j))"
      if ij: "i < j" "j < length rs" for i j
    proof -
      have i: "i < length rs" using ij by simp
      have "records_end c opts d (take (Suc i) rs) \<le> records_end c opts d (take j rs)"
        using records_end_mono [of "Suc i" j] ij(1) by simp
      then show ?thesis
        using record_handle_unat [OF fit i] record_handle_unat(1) [OF fit ij(2)] by linarith
    qed
    have 3: "unat (h_offset (snd (tr ! i))) < unat (h_offset (snd (tr ! j))) \<and>
           unat (h_offset (snd (tr ! i))) + unat (h_size (snd (tr ! i))) \<le>
             unat (h_offset (snd (tr ! j)))"
      if ij: "i < j" "j < length rs"
        and u: "builder_state ((NewBlobFileBuilder c opts new_file # map fst tr) ! i) = kUnbuffered"
          "builder_state ((NewBlobFileBuilder c opts new_file # map fst tr) ! j) = kUnbuffered"
      for i j
    proof -
      have i: "i < length rs" using ij by simp
      have "snd (tr ! i) = record_handle c opts d rs i" "snd (tr ! j) = record_handle c opts d rs j"
        using r(5) i ij(2) u by (simp_all add: d_def)
      then show ?thesis using 2 [OF ij] by simp
    qed
    have 4: "read_n c (length rs + 1)
          (SeekToFirst c (NewBlobFileIterator c (contents (file_writer bf)))) =
        map (\<lambda>i. Some (key (rs ! i), val (rs ! i), record_handle c opts d rs i)) [0..<length rs] @
        [None]"
      using 1 r(4) by (simp add: N_def d_def)
    show ?thesis using 4 2 3 by blast
  qed
  show ?thesis using r(1,2,5) rd unfolding d_def by blast
qed

subsection \<open>Recovery of the record at an offset\<close>

text \<open>
  Claim C8. For the file of such a run, when the decoders undo the encoders on it, and
  for every record \<open>j\<close> and every target offset inside the byte range of record \<open>j\<close> -
  at its start or after it, before the start of the next record - or before the start of
  the first record when \<open>j = 0\<close>: \<^verbatim>\<open>IterateForPrev\<close> followed by \<^verbatim>\<open>Next\<close> leaves the
  iterator valid, without error, showing key, value and handle of record \<open>j\<close>.
\<close>

theorem IterateForPrev_finds_record:
  assumes "sorted_wrt (\<lambda>x y. 0 \<le> comparator opts (key y) (key x)) rs"
    and "\<forall>r\<in>set rs. 0 \<le> comparator opts (key r) (key r) \<and> 0 \<le> comparator opts (key r) []"
  shows "\<exists>bf tr. build c opts new_file h rs = Inr (OK, bf, tr) \<and>
     (codec_fits c opts (compression_dict bf) rs \<longrightarrow>
        (\<forall>target j. j < length rs \<longrightarrow>
           unat target < unat (h_offset (record_handle c opts (compression_dict bf) rs j)) +
                         unat (h_size (record_handle c opts (compression_dict bf) rs j)) \<longrightarrow>
           (unat (h_offset (record_handle c opts (compression_dict bf) rs j)) \<le> unat target \<or> j = 0) \<longrightarrow>
           valid (Next c (IterateForPrev c
                    (NewBlobFileIterator c (contents (file_writer bf))) target)) \<and>
           it_status (Next c (IterateForPrev c
                    (NewBlobFileIterator c (contents (file_writer bf))) target)) = OK \<and>
           cur_key (Next c (IterateForPrev c
                    (NewBlobFileIterator c (contents (file_writer bf))) target)) = key (rs ! j) \<and>
           cur_value (Next c (IterateForPrev c
                    (NewBlobFileIterator c (contents (file_writer bf))) target)) = val (rs ! j) \<and>
           cur_handle (Next c (IterateForPrev c
                    (NewBlobFileIterator c (contents (file_writer bf))) target)) =
             record_handle c opts (compression_dict bf) rs j))"
proof -
  from build_for_reading [OF assms, of c h]
  obtain bf tr where r: "build c opts new_file h rs = Inr (OK, bf, tr)"
    "(compression_dict bf \<noteq> None) = DictionaryEnabled opts"
    "contents (file_writer bf) = file_image c opts (compression_dict bf) rs"
    by blast
  define d where "d = compression_dict bf"
  define N where "N = NewBlobFileIterator c (file_image c opts d rs)"
  have fd: "valid (Next c (IterateForPrev c N target)) \<and>
           it_status (Next c (IterateForPrev c N target)) = OK \<and>
           cur_key (Next c (IterateForPrev c N target)) = key (rs ! j) \<and>
           cur_value (Next c (IterateForPrev c N target)) = val (rs ! j) \<and>
           cur_handle (Next c (IterateForPrev c N target)) = record_handle c opts d rs j"
    if fit: "codec_fits c opts d rs" and j: "j < length rs"
      and t: "unat target < unat (h_offset (record_handle c opts d rs j)) +
                         unat (h_size (record_handle c opts d rs j))"
        "unat (h_offset (record_handle c opts d rs j)) \<le> unat target \<or> j = 0"
    for target j
  proof -
    note n = NewBlobFileIterator_image [OF fit r(2) [folded d_def], folded N_def]
    have fits: "\<forall>r\<in>set rs. record_fits c d r" using fit by (simp add: codec_fits_def)
    have t1: "unat target < records_end c opts d (take (Suc j) rs)"
      using t(1) record_handle_unat(2) [OF fit j] by simp
    have t2: "0 < j \<longrightarrow> records_end c opts d (take j rs) \<le> unat target"
      using t(2) record_handle_unat(1) [OF fit j] by auto
    have "scan_for_prev c N (unat target) (records_end c opts d (take 0 rs)) =
            Some (records_end c opts d (take j rs))"
      using scan_for_prev_finds [OF n(1,4) fits _ j t1 t2] by simp
    then have "scan_for_prev c N (unat target) (kHeaderSize c) =
            Some (records_end c opts d (take j rs))"
      using header_is_first_offset [OF fit] by simp
    then have ip: "IterateForPrev c N target =
        N\<lparr>valid := False, it_status := OK, iterate_offset := records_end c opts d (take j rs)\<rparr>"
      using n(2) by (simp add: IterateForPrev_def)
    have "positioned c opts d rs (IterateForPrev c N target) j"
      using n by (simp add: ip positioned_def)
    from Next_at_record [OF this j] fits j
    have "showing c opts d rs (Next c (IterateForPrev c N target)) j" by simp
    then show ?thesis by (simp add: showing_def positioned_def)
  qed
  show ?thesis
    using r(1) fd unfolding N_def d_def r(3) [symmetric] by blast
qed


lemma toy_final_dict:
  "compression_dict (toy_final True 5) =
     Some (trained_dict toy_codec (toy_options True 5) [EncodeTo toy_codec rec_a, EncodeTo toy_codec rec_b])"
  by (simp add: toy_final_def builder_defs toy_defs rec_defs trained_dict_def copy_len_def Let_def)

lemma toy_final_contents:
  "contents (file_writer (toy_final True 5)) =
     file_image toy_codec (toy_options True 5) (compression_dict (toy_final True 5)) [rec_a, rec_b, rec_c]"
  using build_for_reading [OF toy_keys, of toy_codec True 5 h0]
  by (auto simp: toy_final_def)

lemma toy_fits:
  "codec_fits toy_codec (toy_options True 5) (compression_dict (toy_final True 5)) [rec_a, rec_b, rec_c]"
  unfolding toy_final_dict
  by (simp add: codec_fits_def record_fits_def file_image_def final_footer_def frames_def
      frame_of_def meta_blocks_def meta_block_def meta_block_handle_def dict_block_handle_def
      records_end_def header_flags_def kHasUncompressionDictionary_def trained_dict_def
      copy_len_def kCompressionDictBlock_def toy_defs rec_defs Let_def)


lemmas toy_layout_defs =
  record_handle_def records_end_def frames_def frame_of_def header_flags_def
  kHasUncompressionDictionary_def trained_dict_def copy_len_def toy_defs rec_defs Let_def

lemma toy_handles:
  "record_handle toy_codec (toy_options True 5) (compression_dict (toy_final True 5))
     [rec_a, rec_b, rec_c] 0 = \<lparr>h_offset = 2, h_size = 7\<rparr>"
  "record_handle toy_codec (toy_options True 5) (compression_dict (toy_final True 5))
     [rec_a, rec_b, rec_c] 1 = \<lparr>h_offset = 9, h_size = 8\<rparr>"
  "record_handle toy_codec (toy_options True 5) (compression_dict (toy_final True 5))
     [rec_a, rec_b, rec_c] 2 = \<lparr>h_offset = 17, h_size = 5\<rparr>"
  unfolding toy_final_dict by (simp_all add: toy_layout_defs)

lemma plain_final_dict: "compression_dict (toy_final False 0) = None"
  by (simp add: toy_final_def builder_defs toy_defs rec_defs Let_def)

lemma plain_states:
  "builder_state ((NewBlobFileBuilder toy_codec (toy_options False 0) new_file #
      map fst (snd (snd (projr
        (build toy_codec (toy_options False 0) new_file h0 [rec_a, rec_b, rec_c]))))) ! 0) =
     kUnbuffered"
  "builder_state ((NewBlobFileBuilder toy_codec (toy_options False 0) new_file #
      map fst (snd (snd (projr
        (build toy_codec (toy_options False 0) new_file h0 [rec_a, rec_b, rec_c]))))) ! 1) =
     kUnbuffered"
  "builder_state ((NewBlobFileBuilder toy_codec (toy_options False 0) new_file #
      map fst (snd (snd (projr
        (build toy_codec (toy_options False 0) new_file h0 [rec_a, rec_b, rec_c]))))) ! 2) =
     kUnbuffered"
  by (simp_all add: builder_defs toy_defs rec_defs Let_def)

lemma plain_handles:
  "record_handle toy_codec (toy_options False 0) None [rec_a, rec_b, rec_c] 0 =
     \<lparr>h_offset = 2, h_size = 7\<rparr>"
  "record_handle toy_codec (toy_options False 0) None [rec_a, rec_b, rec_c] 1 =
     \<lparr>h_offset = 9, h_size = 8\<rparr>"
  "record_handle toy_codec (toy_options False 0) None [rec_a, rec_b, rec_c] 2 =
     \<lparr>h_offset = 17, h_size = 5\<rparr>"
  by (simp_all add: toy_layout_defs)

theorem build_then_iterate_roundtrip_witness:
  "codec_fits toy_codec (toy_options True 5) (compression_dict (toy_final True 5))
     [rec_a, rec_b, rec_c] \<and>
   read_n toy_codec 4 (SeekToFirst toy_codec
      (NewBlobFileIterator toy_codec (contents (file_writer (toy_final True 5))))) =
     [Some (key rec_a, val rec_a, \<lparr>h_offset = 2, h_size = 7\<rparr>),
      Some (key rec_b, val rec_b, \<lparr>h_offset = 9, h_size = 8\<rparr>),
      Some (key rec_c, val rec_c, \<lparr>h_offset = 17, h_size = 5\<rparr>), None] \<and>
   snd (snd (snd (projr
     (build toy_codec (toy_options False 0) new_file h0 [rec_a, rec_b, rec_c]))) ! 0) =
     \<lparr>h_offset = 2, h_size = 7\<rparr> \<and>
   snd (snd (snd (projr
     (build toy_codec (toy_options False 0) new_file h0 [rec_a, rec_b, rec_c]))) ! 1) =
     \<lparr>h_offset = 9, h_size = 8\<rparr> \<and>
   snd (snd (snd (projr
     (build toy_codec (toy_options False 0) new_file h0 [rec_a, rec_b, rec_c]))) ! 2) =
     \<lparr>h_offset = 17, h_size = 5\<rparr>"
proof -
  from build_then_iterate_roundtrip [OF toy_keys, of toy_codec True 5 h0]
  obtain bf tr where r: "build toy_codec (toy_options True 5) new_file h0 [rec_a, rec_b, rec_c] =
      Inr (OK, bf, tr)"
    and imp: "codec_fits toy_codec (toy_options True 5) (compression_dict bf) [rec_a, rec_b, rec_c] \<longrightarrow>
        read_n toy_codec (length [rec_a, rec_b, rec_c] + 1)
          (SeekToFirst toy_codec (NewBlobFileIterator toy_codec (contents (file_writer bf)))) =
          map (\<lambda>i. Some (key ([rec_a, rec_b, rec_c] ! i), val ([rec_a, rec_b, rec_c] ! i),
                          record_handle toy_codec (toy_options True 5) (compression_dict bf)
                            [rec_a, rec_b, rec_c] i))
              [0..<length [rec_a, rec_b, rec_c]] @ [None]"
    by blast
  have bf: "bf = toy_final True 5" using r by (simp add: toy_final_def)
  have u: "[0..<length [rec_a, rec_b, rec_c]] = [0, 1, 2]"
    and n: "length [rec_a, rec_b, rec_c] + 1 = 4"
    by (simp_all add: upt_rec)
  from imp [unfolded bf u n] toy_fits
  have e: "read_n toy_codec 4 (SeekToFirst toy_codec
      (NewBlobFileIterator toy_codec (contents (file_writer (toy_final True 5))))) =
      map (\<lambda>i. Some (key ([rec_a, rec_b, rec_c] ! i), val ([rec_a, rec_b, rec_c] ! i),
                      record_handle toy_codec (toy_options True 5)
                        (compression_dict (toy_final True 5)) [rec_a, rec_b, rec_c] i))
          [0, 1, 2] @ [None]"
    by blast
  have rd: "codec_fits toy_codec (toy_options True 5) (compression_dict (toy_final True 5))
     [rec_a, rec_b, rec_c] \<and>
   read_n toy_codec 4 (SeekToFirst toy_codec
      (NewBlobFileIterator toy_codec (contents (file_writer (toy_final True 5))))) =
     [Some (key rec_a, val rec_a, \<lparr>h_offset = 2, h_size = 7\<rparr>),
      Some (key rec_b, val rec_b, \<lparr>h_offset = 9, h_size = 8\<rparr>),
      Some (key rec_c, val rec_c, \<lparr>h_offset = 17, h_size = 5\<rparr>), None]"
    unfolding e using toy_fits toy_handles by simp
  define tp where "tp = snd (snd (projr
     (build toy_codec (toy_options False 0) new_file h0 [rec_a, rec_b, rec_c])))"
  from build_then_iterate_roundtrip [OF toy_keys, of toy_codec False 0 h0]
  obtain bp tr' where p: "build toy_codec (toy_options False 0) new_file h0 [rec_a, rec_b, rec_c] =
      Inr (OK, bp, tr')"
    and hs: "\<forall>i<length [rec_a, rec_b, rec_c]. snd (tr' ! i) =
        (if builder_state ((NewBlobFileBuilder toy_codec (toy_options False 0) new_file #
              map fst tr') ! i) = kUnbuffered
         then record_handle toy_codec (toy_options False 0) (compression_dict bp)
                [rec_a, rec_b, rec_c] i
         else h0)"
    by blast
  have bp: "compression_dict bp = None"
    using p plain_final_dict by (simp add: toy_final_def)
  have tr': "tr' = tp" using p by (simp add: tp_def)
  note st = plain_states [folded tp_def]
  have h: "snd (tp ! i) = record_handle toy_codec (toy_options False 0) None [rec_a, rec_b, rec_c] i"
    if "i = 0 \<or> i = 1 \<or> i = 2" for i
  proof -
    have "i < length [rec_a, rec_b, rec_c]" using that by auto
    with hs have "snd (tr' ! i) =
        (if builder_state ((NewBlobFileBuilder toy_codec (toy_options False 0) new_file #
              map fst tr') ! i) = kUnbuffered
         then record_handle toy_codec (toy_options False 0) (compression_dict bp)
                [rec_a, rec_b, rec_c] i
         else h0)"
      by blast
    then show ?thesis unfolding bp tr' using st that by auto
  qed
  have ph: "snd (tp ! 0) = \<lparr>h_offset = 2, h_size = 7\<rparr> \<and>
            snd (tp ! 1) = \<lparr>h_offset = 9, h_size = 8\<rparr> \<and>
            snd (tp ! 2) = \<lparr>h_offset = 17, h_size = 5\<rparr>"
    using h [of 0] h [of 1] h [of 2] plain_handles by simp
  show ?thesis
    using rd ph unfolding tp_def by blast
qed

theorem IterateForPrev_finds_record_witness:
  "codec_fits toy_codec (toy_options True 5) (compression_dict (toy_final True 5))
     [rec_a, rec_b, rec_c] \<and>
   valid (Next toy_codec (IterateForPrev toy_codec
      (NewBlobFileIterator toy_codec (contents (file_writer (toy_final True 5)))) 10)) \<and>
   cur_key (Next toy_codec (IterateForPrev toy_codec
      (NewBlobFileIterator toy_codec (contents (file_writer (toy_final True 5)))) 10)) = key rec_b \<and>
   cur_value (Next toy_codec (IterateForPrev toy_codec
      (NewBlobFileIterator toy_codec (contents (file_writer (toy_final True 5)))) 10)) = val rec_b \<and>
   cur_handle (Next toy_codec (IterateForPrev toy_codec
      (NewBlobFileIterator toy_codec (contents (file_writer (toy_final True 5)))) 10)) =
     \<lparr>h_offset = 9, h_size = 8\<rparr>"
proof -
  from IterateForPrev_finds_record [OF toy_keys, of toy_codec True 5 h0]
  obtain bf tr where r: "build toy_codec (toy_options True 5) new_file h0 [rec_a, rec_b, rec_c] =
      Inr (OK, bf, tr)"
    and imp: "codec_fits toy_codec (toy_options True 5) (compression_dict bf) [rec_a, rec_b, rec_c] \<longrightarrow>
        (\<forall>target j. j < length [rec_a, rec_b, rec_c] \<longrightarrow>
           unat target < unat (h_offset (record_handle toy_codec (toy_options True 5)
                                (compression_dict bf) [rec_a, rec_b, rec_c] j)) +
                         unat (h_size (record_handle toy_codec (toy_options True 5)
                                (compression_dict bf) [rec_a, rec_b, rec_c] j)) \<longrightarrow>
           (unat (h_offset (record_handle toy_codec (toy_options True 5)
                                (compression_dict bf) [rec_a, rec_b, rec_c] j)) \<le> unat target \<or> j = 0) \<longrightarrow>
           valid (Next toy_codec (IterateForPrev toy_codec
                    (NewBlobFileIterator toy_codec (contents (file_writer bf))) target)) \<and>
           it_status (Next toy_codec (IterateForPrev toy_codec
                    (NewBlobFileIterator toy_codec (contents (file_writer bf))) target)) = OK \<and>
           cur_key (Next toy_codec (IterateForPrev toy_codec
                    (NewBlobFileIterator toy_codec (contents (file_writer bf))) target)) =
             key ([rec_a, rec_b, rec_c] ! j) \<and>
           cur_value (Next toy_codec (IterateForPrev toy_codec
                    (NewBlobFileIterator toy_codec (contents (file_writer bf))) target)) =
             val ([rec_a, rec_b, rec_c] ! j) \<and>
           cur_handle (Next toy_codec (IterateForPrev toy_codec
                    (NewBlobFileIterator toy_codec (contents (file_writer bf))) target)) =
             record_handle toy_codec (toy_options True 5) (compression_dict bf)
               [rec_a, rec_b, rec_c] j)"
    by blast
  have bf: "bf = toy_final True 5" using r by (simp add: toy_final_def)
  show ?thesis
    using imp [unfolded bf, rule_format, OF toy_fits, of 1 10] toy_fits toy_handles(2)
    by simp
qed

text \<open>The footer of the small run with a dictionary, and where its handles point.\<close>

theorem Finish_dictionary_flag_and_footer_witness:
  "0 < length (EncodeHeader toy_codec (header_flags (toy_options True 5))) \<and>
   length (contents (file_writer (toy_final True 5))) < 2 ^ 64 \<and>
   header_flags (toy_options True 5) AND kHasUncompressionDictionary =
     kHasUncompressionDictionary \<and>
   final_footer toy_codec (toy_options True 5) (compression_dict (toy_final True 5))
     [rec_a, rec_b, rec_c] =
     \<lparr>meta_index_handle = \<lparr>b_offset = 28, b_size = 26\<rparr>,
      uncompression_dict_handle = \<lparr>b_offset = 22, b_size = 1\<rparr>\<rparr> \<and>
   meta_index_handle (final_footer toy_codec (toy_options True 5)
     (compression_dict (toy_final True 5)) [rec_a, rec_b, rec_c]) \<noteq> null_handle \<and>
   uncompression_dict_handle (final_footer toy_codec (toy_options True 5)
     (compression_dict (toy_final True 5)) [rec_a, rec_b, rec_c]) \<noteq> null_handle \<and>
   block_at (contents (file_writer (toy_final True 5)))
     (uncompression_dict_handle (final_footer toy_codec (toy_options True 5)
        (compression_dict (toy_final True 5)) [rec_a, rec_b, rec_c])) =
     raw_dict (trained_dict toy_codec (toy_options True 5)
        [EncodeTo toy_codec rec_a, EncodeTo toy_codec rec_b])"
proof -
  from Finish_dictionary_flag_and_footer [OF toy_keys, of toy_codec True 5 h0]
  obtain bf tr footer where
    r: "build toy_codec (toy_options True 5) new_file h0 [rec_a, rec_b, rec_c] = Inr (OK, bf, tr)"
    and ft: "footer = final_footer toy_codec (toy_options True 5) (compression_dict bf)
                [rec_a, rec_b, rec_c]"
    and on: "DictionaryEnabled (toy_options True 5) \<longrightarrow>
        header_flags (toy_options True 5) AND kHasUncompressionDictionary =
          kHasUncompressionDictionary \<and>
        (\<exists>cd. compression_dict bf = Some cd \<and>
           (0 < length (EncodeHeader toy_codec (header_flags (toy_options True 5))) \<and>
            length (contents (file_writer bf)) < 2 ^ 64 \<longrightarrow>
              meta_index_handle footer \<noteq> null_handle \<and>
              uncompression_dict_handle footer \<noteq> null_handle \<and>
              block_at (contents (file_writer bf)) (uncompression_dict_handle footer) = raw_dict cd \<and>
              block_at (contents (file_writer bf)) (meta_index_handle footer) =
                MetaIndexBlock toy_codec [(kCompressionDictBlock, uncompression_dict_handle footer)] \<and>
              unat (b_offset (uncompression_dict_handle footer)) +
                unat (b_size (uncompression_dict_handle footer)) + 5 =
                unat (b_offset (meta_index_handle footer)) \<and>
              unat (b_offset (meta_index_handle footer)) +
                unat (b_size (meta_index_handle footer)) + 5 +
                length (EncodeFooter toy_codec footer) =
                length (contents (file_writer bf))))"
    by blast
  have bf: "bf = toy_final True 5" using r by (simp add: toy_final_def)
  have en: "DictionaryEnabled (toy_options True 5)" by (simp add: toy_options_def)
  have h1: "0 < length (EncodeHeader toy_codec (header_flags (toy_options True 5)))"
    by (simp add: toy_codec_def)
  have h2: "length (contents (file_writer (toy_final True 5))) < 2 ^ 64"
    using toy_fits by (simp add: toy_final_contents codec_fits_def)
  have fv: "final_footer toy_codec (toy_options True 5) (compression_dict (toy_final True 5))
     [rec_a, rec_b, rec_c] =
     \<lparr>meta_index_handle = \<lparr>b_offset = 28, b_size = 26\<rparr>,
      uncompression_dict_handle = \<lparr>b_offset = 22, b_size = 1\<rparr>\<rparr>"
    unfolding toy_final_dict
    by (simp add: final_footer_def meta_block_handle_def dict_block_handle_def meta_block_def
        kCompressionDictBlock_def toy_layout_defs)
  show ?thesis
    using on [unfolded bf ft] en h1 h2 fv toy_final_dict by auto
qed

end
